theory Spec2Isabelle
  imports Main "HOL-Library.Word" "HOL-Library.Sublist"
begin

unbundle bit_operations_syntax

section \<open>Annex-B start-code search (internal/video/rtsp.go)\<close>

text \<open>
  A Go \<^verbatim>\<open>[]byte\<close> is a list of 8-bit words. Go's \<^verbatim>\<open>int\<close> indices are
  modelled as \<^typ>\<open>int\<close>, since the source computes \<^verbatim>\<open>len(buffer)-3\<close> and
  \<^verbatim>\<open>len(buffer)-4\<close>, which are negative on short buffers.
\<close>

type_synonym byte = "8 word"

definition len :: "'a list \<Rightarrow> int" where
  "len xs = int (length xs)"

text \<open>\<^verbatim>\<open>buffer[i]\<close>, used only where the source has established \<open>0 \<le> i < len buffer\<close>.\<close>

definition at :: "'a list \<Rightarrow> int \<Rightarrow> 'a" where
  "at xs i = xs ! nat i"

text \<open>
  The two byte patterns the source spells out at every use:
  \<^verbatim>\<open>b[i] == 0x00 && b[i+1] == 0x00 && b[i+2] == 0x00 && b[i+3] == 0x01\<close> and
  \<^verbatim>\<open>b[i] == 0x00 && b[i+1] == 0x00 && b[i+2] == 0x01\<close>.
\<close>

definition isStartCode4 :: "byte list \<Rightarrow> int \<Rightarrow> bool" where
  "isStartCode4 b i \<longleftrightarrow> at b i = 0 \<and> at b (i + 1) = 0 \<and> at b (i + 2) = 0 \<and> at b (i + 3) = 1"

definition isStartCode3 :: "byte list \<Rightarrow> int \<Rightarrow> bool" where
  "isStartCode3 b i \<longleftrightarrow> at b i = 0 \<and> at b (i + 1) = 0 \<and> at b (i + 2) = 1"

text \<open>
  \<^verbatim>\<open>for i := 0; i <= len(buffer)-4; i++\<close> of \<^verbatim>\<open>findStartCode4\<close>, from index \<open>i\<close> on.
\<close>

function findStartCode4_from :: "byte list \<Rightarrow> int \<Rightarrow> int" where
  "findStartCode4_from buffer i =
     (if i \<le> len buffer - 4 then
        (if isStartCode4 buffer i then i else findStartCode4_from buffer (i + 1))
      else -1)"
  by pat_completeness auto
termination
  by (relation "measure (\<lambda>(buffer, i). nat (len buffer - i))") auto

definition findStartCode4 :: "byte list \<Rightarrow> int" where
  "findStartCode4 buffer = findStartCode4_from buffer 0"

text \<open>
  \<^verbatim>\<open>for i := start; i <= len(buffer)-3; i++\<close> of \<^verbatim>\<open>findStartCode3\<close>: a position
  whose predecessor is \<open>00\<close> is skipped with \<^verbatim>\<open>continue\<close>.
\<close>

function findStartCode3_from :: "byte list \<Rightarrow> int \<Rightarrow> int" where
  "findStartCode3_from buffer i =
     (if i \<le> len buffer - 3 then
        (if i > 0 \<and> at buffer (i - 1) = 0 then findStartCode3_from buffer (i + 1)
         else if isStartCode3 buffer i then i
         else findStartCode3_from buffer (i + 1))
      else -1)"
  by pat_completeness auto
termination
  by (relation "measure (\<lambda>(buffer, i). nat (len buffer - i))") auto

definition findStartCode3 :: "byte list \<Rightarrow> int" where
  "findStartCode3 buffer =
     (let start = 1 in
      if start > len buffer - 3 then -1 else findStartCode3_from buffer start)"

text \<open>
  The choice made at the head of the scan loop of \<^verbatim>\<open>readFrames\<close>:
  \<^verbatim>\<open>if idx := findStartCode4(buffer); idx >= 0 {...} else if idx := findStartCode3(buffer); idx >= 0 {...}\<close>.
  The result is \<open>(startCodeIdx, startCodeLen)\<close>, initially \<open>(-1, 0)\<close>.
\<close>

definition locateStartCode :: "byte list \<Rightarrow> int \<times> int" where
  "locateStartCode buffer =
     (if findStartCode4 buffer \<ge> 0 then (findStartCode4 buffer, 4)
      else if findStartCode3 buffer \<ge> 0 then (findStartCode3 buffer, 3)
      else (-1, 0))"

section \<open>The RTSP source and its shutdown\<close>

text \<open>
  \<^verbatim>\<open>r.cmd\<close> is a pointer to an \<^verbatim>\<open>exec.Cmd\<close>, whose \<^verbatim>\<open>Process\<close> field is set once the
  child has been started; \<^verbatim>\<open>r.stdout\<close> is the child's stdout pipe. Both are \<^verbatim>\<open>nil\<close>
  until \<^verbatim>\<open>Start\<close> has run. A pipe is modelled by whether it is still open.
\<close>

datatype exec_cmd = ExecCmd (hasProcess: bool)

datatype pipe = Pipe (isOpen: bool)

text \<open>What \<^verbatim>\<open>readFrames\<close> hands to the frame channel, and from which place in the source.\<close>

datatype site = Finalised | ViaAUD | FirstIDR | Flush

text \<open>
  One send to \<^verbatim>\<open>r.frameChan\<close>: the bytes sent, the values of \<^verbatim>\<open>r.spsPps\<close> and of
  the bytes being finalised (\<^verbatim>\<open>r.currentFrame\<close>, or the scan buffer for the flush) at that
  moment, and whether the channel took the value.
\<close>

datatype emission =
  Emission (em_site: site) (em_bytes: "byte list") (em_cache: "byte list")
    (em_frame: "byte list") (em_queued: bool)

text \<open>
  The fields of \<^verbatim>\<open>RTSPVideoSource\<close> (without the mutex), followed by the state that
  \<^verbatim>\<open>readFrames\<close> keeps outside the struct: its local scan \<open>buffer\<close>, the package-level
  \<open>frameQueueCounter\<close>, and the record \<open>sent\<close> of its sends to the frame channel.
  Channels are queues, oldest element first.
\<close>

record RTSPVideoSource =
  rtspURL :: string
  cmd :: "exec_cmd option"
  stdout :: "pipe option"
  frameChan :: "byte list list"
  errChan :: "string list"
  closed :: bool
  accessUnit :: "byte list"
  spsPps :: "byte list"
  spsPpsFound :: bool
  currentFrame :: "byte list"
  frameRate :: int
  buffer :: "byte list"
  frameQueueCounter :: int
  sent :: "emission list"

text \<open>\<^verbatim>\<open>make(chan []byte, 5)\<close> and \<^verbatim>\<open>make(chan error, 1)\<close> in \<^verbatim>\<open>NewRTSPVideoSource\<close>.\<close>

definition frameChanCap :: nat where
  "frameChanCap = 5"

definition errChanCap :: nat where
  "errChanCap = 1"

text \<open>
  \<^verbatim>\<open>NewRTSPVideoSource\<close>; \<open>fps\<close> is \<^verbatim>\<open>config.AppConfig.Video.FPS\<close> and \<open>counter\<close> the
  current value of the package-level \<^verbatim>\<open>frameQueueCounter\<close> (0 in a fresh process).
\<close>

definition NewRTSPVideoSource :: "string \<Rightarrow> int \<Rightarrow> int \<Rightarrow> RTSPVideoSource" where
  "NewRTSPVideoSource url fps counter =
     \<lparr> rtspURL = url, cmd = None, stdout = None, frameChan = [], errChan = [],
       closed = False, accessUnit = [], spsPps = [], spsPpsFound = False,
       currentFrame = [], frameRate = fps, buffer = [], frameQueueCounter = counter,
       sent = [] \<rparr>"

text \<open>The calls \<^verbatim>\<open>Close\<close> makes on the operating system, in order.\<close>

datatype effect = ProcessKill | CmdWait | StdoutClose

text \<open>
  \<^verbatim>\<open>Close\<close>, under \<^verbatim>\<open>r.mu\<close>. The result is the returned error (always \<^verbatim>\<open>nil\<close>), the
  effects performed by this call, and the source afterwards.
\<close>

definition Close :: "RTSPVideoSource \<Rightarrow> string option \<times> effect list \<times> RTSPVideoSource" where
  "Close r =
     (if closed r then (None, [], r)
      else
        (let r1 = r\<lparr>closed := True\<rparr>;
             killed = (case cmd r1 of
                         Some c \<Rightarrow> if hasProcess c then [ProcessKill, CmdWait] else []
                       | None \<Rightarrow> []);
             (piped, r2) = (case stdout r1 of
                         Some p \<Rightarrow> ([StdoutClose], r1\<lparr>stdout := Some (Pipe False)\<rparr>)
                       | None \<Rightarrow> ([], r1))
         in (None, killed @ piped, r2)))"

text \<open>A sequence of \<^verbatim>\<open>Close\<close> calls on the same source: all effects in order, and the final source.\<close>

fun CloseTimes :: "nat \<Rightarrow> RTSPVideoSource \<Rightarrow> effect list \<times> RTSPVideoSource" where
  "CloseTimes 0 r = ([], r)"
| "CloseTimes (Suc n) r =
     (case Close r of (err, effs, r') \<Rightarrow>
        (case CloseTimes n r' of (effs', r'') \<Rightarrow> (effs @ effs', r'')))"

section \<open>Classification of transcoder stderr lines (\<^verbatim>\<open>Start\<close>)\<close>

text \<open>\<^verbatim>\<open>strings.Contains(s, substr)\<close>.\<close>

definition Contains :: "string \<Rightarrow> string \<Rightarrow> bool" where
  "Contains s substr = sublist substr s"

text \<open>
  \<^verbatim>\<open>strings.ToLower\<close> on the ASCII letters: \<open>A\<close>..\<open>Z\<close> are mapped to \<open>a\<close>..\<open>z\<close>, every
  other byte is kept. (Go also lower-cases letters outside ASCII; stderr lines are
  modelled as ASCII text.)
\<close>

definition toLowerChar :: "char \<Rightarrow> char" where
  "toLowerChar c =
     (let n = (of_char c :: nat) in if 65 \<le> n \<and> n \<le> 90 then char_of (n + 32) else c)"

definition ToLower :: "string \<Rightarrow> string" where
  "ToLower s = map toLowerChar s"

definition isHardwareEncoderError :: "string \<Rightarrow> bool" where
  "isHardwareEncoderError lowerLine \<longleftrightarrow>
     Contains lowerLine ''vaapi'' \<and>
       (Contains lowerLine ''failed'' \<or>
        Contains lowerLine ''error'' \<or>
        Contains lowerLine ''device creation failed'' \<or>
        Contains lowerLine ''failed to initialise'' \<or>
        Contains lowerLine ''input/output error'')"

text \<open>The condition guarding the assignment to \<^verbatim>\<open>ffmpegError\<close>.\<close>

definition isCriticalLine :: "string \<Rightarrow> bool" where
  "isCriticalLine line \<longleftrightarrow>
     (let lowerLine = ToLower line in
        Contains lowerLine ''404 not found'' \<or>
        Contains lowerLine ''connection refused'' \<or>
        Contains lowerLine ''failed'' \<or>
        Contains lowerLine ''error opening input'' \<or>
        isHardwareEncoderError lowerLine)"

text \<open>
  One iteration of the stderr scanner loop, as far as \<^verbatim>\<open>ffmpegError\<close> goes: empty
  lines are ignored, and only the first critical line is kept
  (\<^verbatim>\<open>if ffmpegError == nil\<close>). The stored error is
  \<^verbatim>\<open>fmt.Errorf("FFmpeg critical error: %s", line)\<close>.
\<close>

definition stderrLine :: "string \<Rightarrow> string option \<Rightarrow> string option" where
  "stderrLine line ffmpegError =
     (if length line > 0 then
        (if isCriticalLine line then
           (if ffmpegError = None then Some (''FFmpeg critical error: '' @ line) else ffmpegError)
         else ffmpegError)
      else ffmpegError)"

section \<open>The frame channel\<close>

text \<open>
  A buffered Go channel of capacity \<open>cap\<close> as a queue, oldest element first.
  \<open>trySend\<close> is \<^verbatim>\<open>select { case ch <- v: ... default: ... }\<close>: \<open>None\<close> when the
  \<^verbatim>\<open>default\<close> branch is taken. \<open>tryRecv\<close> is \<^verbatim>\<open>select { case x := <-ch: ... default: ... }\<close>.
  \<open>blockingSend\<close> is the plain statement \<^verbatim>\<open>ch <- v\<close>: with no receiver running in
  between, it cannot proceed on a full channel, which is the result \<open>None\<close>.
\<close>

definition trySend :: "nat \<Rightarrow> 'a list \<Rightarrow> 'a \<Rightarrow> 'a list option" where
  "trySend cap ch v = (if length ch < cap then Some (ch @ [v]) else None)"

definition tryRecv :: "'a list \<Rightarrow> ('a \<times> 'a list) option" where
  "tryRecv ch = (case ch of [] \<Rightarrow> None | x # rest \<Rightarrow> Some (x, rest))"

definition blockingSend :: "nat \<Rightarrow> 'a list \<Rightarrow> 'a \<Rightarrow> 'a list option" where
  "blockingSend cap ch v = (if length ch < cap then Some (ch @ [v]) else None)"

text \<open>What can stop \<^verbatim>\<open>readFrames\<close> other than its own \<^verbatim>\<open>return\<close>.\<close>

datatype fault = SliceOutOfRange | SendBlocked

text \<open>
  The nested \<^verbatim>\<open>select\<close> that queues a finalised access unit (first place): send; if the
  channel is full, take the oldest frame out and send again without blocking; if the
  channel turned out empty, send blocking. The result is the channel and whether the
  frame was queued.
\<close>

definition sendFinalised :: "byte list list \<Rightarrow> byte list \<Rightarrow> fault + (byte list list \<times> bool)" where
  "sendFinalised ch frameToSend =
     (case trySend frameChanCap ch frameToSend of
        Some ch' \<Rightarrow> Inr (ch', True)
      | None \<Rightarrow>
          (case tryRecv ch of
             Some (oldFrame, rest) \<Rightarrow>
               (case trySend frameChanCap rest frameToSend of
                  Some ch' \<Rightarrow> Inr (ch', True)
                | None \<Rightarrow> Inr (rest, False))
           | None \<Rightarrow>
               (case blockingSend frameChanCap ch frameToSend of
                  Some ch' \<Rightarrow> Inr (ch', True)
                | None \<Rightarrow> Inl SendBlocked)))"

text \<open>
  The nested \<^verbatim>\<open>select\<close> of the two other places (after an AUD, and for the first IDR
  frame): send; if the channel is full, take the oldest frame out and send blocking.
\<close>

definition sendReplacing :: "byte list list \<Rightarrow> byte list \<Rightarrow> fault + (byte list list \<times> bool)" where
  "sendReplacing ch frameToSend =
     (case trySend frameChanCap ch frameToSend of
        Some ch' \<Rightarrow> Inr (ch', True)
      | None \<Rightarrow>
          (case tryRecv ch of
             Some (oldFrame, rest) \<Rightarrow>
               (case blockingSend frameChanCap rest frameToSend of
                  Some ch' \<Rightarrow> Inr (ch', True)
                | None \<Rightarrow> Inl SendBlocked)
           | None \<Rightarrow>
               (case blockingSend frameChanCap ch frameToSend of
                  Some ch' \<Rightarrow> Inr (ch', True)
                | None \<Rightarrow> Inl SendBlocked)))"

text \<open>
  \<^verbatim>\<open>sendFrameSafely\<close>, used when the read from stdout has failed: one non-blocking
  send, and nothing else when the channel is full.
\<close>

definition sendFrameSafely :: "byte list list \<Rightarrow> byte list \<Rightarrow> byte list list \<times> bool" where
  "sendFrameSafely ch frame =
     (case trySend frameChanCap ch frame of
        Some ch' \<Rightarrow> (ch', True)
      | None \<Rightarrow> (ch, False))"

text \<open>\<^verbatim>\<open>sendErrorSafely\<close>: one non-blocking send to the error channel.\<close>

definition sendErrorSafely :: "string list \<Rightarrow> string \<Rightarrow> string list" where
  "sendErrorSafely ch errMsg =
     (case trySend errChanCap ch errMsg of Some ch' \<Rightarrow> ch' | None \<Rightarrow> ch)"

section \<open>NAL parsing in \<^verbatim>\<open>readFrames\<close>\<close>

text \<open>\<^verbatim>\<open>b[lo:hi]\<close>, used where the source has \<open>0 \<le> lo \<le> hi \<le> len b\<close>.\<close>

definition sliceOf :: "'a list \<Rightarrow> int \<Rightarrow> int \<Rightarrow> 'a list" where
  "sliceOf xs lo hi = take (nat (hi - lo)) (drop (nat lo) xs)"

text \<open>
  The backward search \<^verbatim>\<open>for i := startCodeIdx - 1; i >= 0; i--\<close> for the start code
  before the current one; the result is \<open>(prevStartCodeIdx, prevStartCodeLen)\<close>, and
  \<open>(-1, 0)\<close> when the loop runs out.
\<close>

function findPrevStartCode :: "byte list \<Rightarrow> int \<Rightarrow> int \<times> int" where
  "findPrevStartCode b i =
     (if i \<ge> 0 then
        (if i \<ge> 3 \<and> isStartCode4 b (i - 3) then (i - 3, 4)
         else if i \<ge> 2 \<and> isStartCode3 b (i - 2) then (i - 2, 3)
         else findPrevStartCode b (i - 1))
      else (-1, 0))"
  by pat_completeness auto
termination
  by (relation "measure (\<lambda>(b, i). nat (i + 1))") auto

text \<open>
  The forward search \<^verbatim>\<open>for i := startCodeIdx + currentStartCodeLen; i < len(buffer)-3; i++\<close>
  for the next start code; \<open>-1\<close> when there is none yet.
\<close>

function findNextStartCode :: "byte list \<Rightarrow> int \<Rightarrow> int" where
  "findNextStartCode b i =
     (if i < len b - 3 then
        (if i + 3 < len b \<and> isStartCode4 b i then i
         else if i + 2 < len b \<and> isStartCode3 b i \<and> (i = 0 \<or> at b (i - 1) \<noteq> 0) then i
         else findNextStartCode b (i + 1))
      else -1)"
  by pat_completeness auto
termination
  by (relation "measure (\<lambda>(b, i). nat (len b - i))") auto

text \<open>\<^verbatim>\<open>nalTypeByte\<close>: the low five bits of the byte after the unit's start code.\<close>

definition nalTypeOf :: "byte list \<Rightarrow> byte" where
  "nalTypeOf nalUnit =
     (if len nalUnit \<ge> 5 \<and> isStartCode4 nalUnit 0 then at nalUnit 4 AND 0x1F
      else if len nalUnit \<ge> 4 \<and> isStartCode3 nalUnit 0 then at nalUnit 3 AND 0x1F
      else 0)"

text \<open>
  The search for an IDR unit in \<^verbatim>\<open>r.currentFrame\<close> where a finalised frame is sent:
  \<^verbatim>\<open>for i < len(r.currentFrame)\<close>, jumping behind the type byte after each start code.
\<close>

function hasIDR_walk :: "byte list \<Rightarrow> int \<Rightarrow> bool" where
  "hasIDR_walk cf i =
     (if i < len cf then
        (if i + 4 \<le> len cf \<and> isStartCode4 cf i then
           (if (if i + 4 < len cf then at cf (i + 4) AND 0x1F else 0) = 5 then True
            else hasIDR_walk cf (i + 4 + 1))
         else if i + 3 \<le> len cf \<and> isStartCode3 cf i then
           (if (if i + 3 < len cf then at cf (i + 3) AND 0x1F else 0) = 5 then True
            else hasIDR_walk cf (i + 3 + 1))
         else hasIDR_walk cf (i + 1))
      else False)"
  by pat_completeness auto
termination
  by (relation "measure (\<lambda>(cf, i). nat (len cf - i))") auto

text \<open>
  The search for an IDR unit at the two other places:
  \<^verbatim>\<open>for i := 0; i < len(r.currentFrame)-3; i++\<close>.
\<close>

function hasIDR_scan :: "byte list \<Rightarrow> int \<Rightarrow> bool" where
  "hasIDR_scan cf i =
     (if i < len cf - 3 then
        (if isStartCode4 cf i then
           (if i + 4 < len cf \<and> at cf (i + 4) AND 0x1F = 5 then True
            else hasIDR_scan cf (i + 1))
         else if i + 2 < len cf \<and> isStartCode3 cf i then
           (if i + 3 < len cf \<and> at cf (i + 3) AND 0x1F = 5 then True
            else hasIDR_scan cf (i + 1))
         else hasIDR_scan cf (i + 1))
      else False)"
  by pat_completeness auto
termination
  by (relation "measure (\<lambda>(cf, i). nat (len cf - i))") auto

text \<open>
  The search for SPS (7) and PPS (8) headers in \<^verbatim>\<open>r.accessUnit\<close>:
  \<^verbatim>\<open>for i := 0; i < len(r.accessUnit)-3; i++\<close>, carrying \<open>(hasSPS, hasPPS)\<close>.
\<close>

definition noteParameterSet :: "byte \<Rightarrow> bool \<times> bool \<Rightarrow> bool \<times> bool" where
  "noteParameterSet nalType found =
     (if nalType = 7 then (True, snd found)
      else if nalType = 8 then (fst found, True)
      else found)"

function scanParameterSets :: "byte list \<Rightarrow> int \<Rightarrow> bool \<times> bool \<Rightarrow> bool \<times> bool" where
  "scanParameterSets au i found =
     (if i < len au - 3 then
        (if isStartCode4 au i then
           (if i + 4 < len au
            then scanParameterSets au (i + 1) (noteParameterSet (at au (i + 4) AND 0x1F) found)
            else scanParameterSets au (i + 1) found)
         else if isStartCode3 au i then
           (if i + 3 < len au
            then scanParameterSets au (i + 1) (noteParameterSet (at au (i + 3) AND 0x1F) found)
            else scanParameterSets au (i + 1) found)
         else scanParameterSets au (i + 1) found)
      else found)"
  by pat_completeness auto
termination
  by (relation "measure (\<lambda>(au, i, found). nat (len au - i))") auto

text \<open>
  After an SPS or PPS unit has been appended to \<^verbatim>\<open>r.accessUnit\<close>: when the accumulator
  holds both an SPS and a PPS header, it is copied to \<^verbatim>\<open>r.spsPps\<close>.
\<close>

definition saveParameterSets :: "RTSPVideoSource \<Rightarrow> RTSPVideoSource" where
  "saveParameterSets r =
     (case scanParameterSets (accessUnit r) 0 (False, False) of
        (hasSPS, hasPPS) \<Rightarrow> if hasSPS \<and> hasPPS then r\<lparr>spsPps := accessUnit r\<rparr> else r)"

text \<open>Recording a send to the frame channel: the new channel contents and the send itself.\<close>

definition queueFrame ::
  "site \<Rightarrow> byte list \<Rightarrow> byte list list \<times> bool \<Rightarrow> RTSPVideoSource \<Rightarrow> RTSPVideoSource" where
  "queueFrame st frameToSend res r =
     r\<lparr>frameChan := fst res,
       sent := sent r @ [Emission st frameToSend (spsPps r) (currentFrame r) (snd res)]\<rparr>"

text \<open>
  \<^verbatim>\<open>frameToSend\<close> where a finalised frame is sent (\<^verbatim>\<open>if shouldSendFrame\<close>): the saved
  parameter sets are put in front when \<^verbatim>\<open>r.spsPps\<close> is not empty and the walk finds an IDR unit.
\<close>

definition finalisedFrame :: "RTSPVideoSource \<Rightarrow> byte list" where
  "finalisedFrame r =
     (let hasIDR = (if len (spsPps r) > 0 then hasIDR_walk (currentFrame r) 0 else False)
      in if hasIDR \<and> len (spsPps r) > 0 then spsPps r @ currentFrame r else currentFrame r)"

definition sendCurrentFrame :: "RTSPVideoSource \<Rightarrow> fault \<times> RTSPVideoSource + RTSPVideoSource" where
  "sendCurrentFrame r =
     (let frameToSend = finalisedFrame r;
          r1 = r\<lparr>frameQueueCounter := frameQueueCounter r + 1\<rparr>
      in case sendFinalised (frameChan r1) frameToSend of
           Inl e \<Rightarrow> Inl (e, r1)
         | Inr res \<Rightarrow> Inr ((queueFrame Finalised frameToSend res r1)\<lparr>currentFrame := []\<rparr>))"

text \<open>
  The send inside \<^verbatim>\<open>if isAUD\<close>, guarded there by
  \<^verbatim>\<open>len(r.currentFrame) > 0 && !shouldSendFrame\<close>.
\<close>

definition audFrame :: "RTSPVideoSource \<Rightarrow> byte list" where
  "audFrame r =
     (if len (spsPps r) > 0 then
        (if hasIDR_scan (currentFrame r) 0 then spsPps r @ currentFrame r else currentFrame r)
      else currentFrame r)"

definition sendAfterAUD :: "RTSPVideoSource \<Rightarrow> fault \<times> RTSPVideoSource + RTSPVideoSource" where
  "sendAfterAUD r =
     (let frameToSend = audFrame r
      in case sendReplacing (frameChan r) frameToSend of
           Inl e \<Rightarrow> Inl (e, r)
         | Inr res \<Rightarrow>
             Inr ((queueFrame ViaAUD frameToSend res r)
                    \<lparr>frameQueueCounter := frameQueueCounter r + 1, currentFrame := []\<rparr>))"

text \<open>
  The treatment of one extracted NAL unit (the body of
  \<^verbatim>\<open>if len(nalUnit) > prevStartCodeLen+1\<close>).
\<close>

definition processNAL ::
  "byte list \<Rightarrow> RTSPVideoSource \<Rightarrow> fault \<times> RTSPVideoSource + RTSPVideoSource" where
  "processNAL nalUnit r =
     (let nalTypeByte = nalTypeOf nalUnit;
          isPictureFrame = (nalTypeByte = 5 \<or> nalTypeByte = 1);
          isIDR = (nalTypeByte = 5);
          isAUD = (nalTypeByte = 9);
          shouldSendFrame =
            (if isAUD then len (currentFrame r) > 0
             else if isPictureFrame then
               (if isIDR then (if len (currentFrame r) > 0 then True else False)
                else if len (currentFrame r) > 0 then True else False)
             else False)
      in case (if shouldSendFrame then sendCurrentFrame r else Inr r) of
           Inl stop \<Rightarrow> Inl stop
         | Inr r1 \<Rightarrow>
             if isAUD then
               (if len (currentFrame r1) > 0 \<and> \<not> shouldSendFrame then sendAfterAUD r1 else Inr r1)
             else if isPictureFrame then
               Inr (r1\<lparr>currentFrame := currentFrame r1 @ nalUnit\<rparr>)
             else if nalTypeByte = 7 \<or> nalTypeByte = 8 then
               Inr (saveParameterSets (r1\<lparr>accessUnit := accessUnit r1 @ nalUnit\<rparr>))
             else if len (currentFrame r1) > 0 then
               Inr (r1\<lparr>currentFrame := currentFrame r1 @ nalUnit\<rparr>)
             else
               Inr (r1\<lparr>accessUnit := accessUnit r1 @ nalUnit\<rparr>))"

text \<open>
  The block under \<^verbatim>\<open>if !found\<close>: before any frame has been queued, a current frame of
  more than 100 bytes with an IDR header is sent behind the saved parameter sets.
\<close>

definition sendFirstIDR :: "RTSPVideoSource \<Rightarrow> fault \<times> RTSPVideoSource + RTSPVideoSource" where
  "sendFirstIDR r =
     (if len (currentFrame r) > 0 \<and> len (spsPps r) > 0 \<and> frameQueueCounter r = 0 then
        (if hasIDR_scan (currentFrame r) 0 \<and> len (currentFrame r) > 100 then
           (let frameToSend = spsPps r @ currentFrame r
            in case sendReplacing (frameChan r) frameToSend of
                 Inl e \<Rightarrow> Inl (e, r)
               | Inr res \<Rightarrow>
                   Inr ((queueFrame FirstIDR frameToSend res r)
                          \<lparr>frameQueueCounter := frameQueueCounter r + 1, currentFrame := []\<rparr>))
         else Inr r)
      else Inr r)"

text \<open>One pass through the inner \<^verbatim>\<open>for\<close> loop: go round again, leave the loop, or stop.\<close>

datatype step = Continue RTSPVideoSource | Break RTSPVideoSource | Fail fault RTSPVideoSource

text \<open>
  The end of a pass that found a unit: the scan buffer is cut to its last 256 KB once it
  exceeds 512 KB.
\<close>

definition boundBuffer :: "RTSPVideoSource \<Rightarrow> RTSPVideoSource" where
  "boundBuffer r =
     (if len (buffer r) > 512 * 1024
      then r\<lparr>buffer := drop (nat (len (buffer r) - 256 * 1024)) (buffer r)\<rparr>
      else r)"

text \<open>
  The part of a pass after \<open>nalStart\<close>, \<open>nalEnd\<close> and \<open>prevStartCodeLen\<close> are known;
  \<open>hasPrev\<close> is \<^verbatim>\<open>prevStartCodeIdx >= 0\<close>. \<^verbatim>\<open>buffer[startCodeIdx+4:]\<close> panics when
  the start code found is the 3-byte one at the very end of the buffer.
\<close>

definition extractNAL ::
  "RTSPVideoSource \<Rightarrow> bool \<Rightarrow> int \<Rightarrow> int \<Rightarrow> int \<Rightarrow> int \<Rightarrow> step" where
  "extractNAL r hasPrev startCodeIdx nalStart nalEnd prevStartCodeLen =
     (if nalEnd > nalStart \<and> nalEnd - nalStart > prevStartCodeLen then
        (let nalUnit = sliceOf (buffer r) nalStart nalEnd
         in case (if len nalUnit > prevStartCodeLen + 1 then processNAL nalUnit r else Inr r) of
              Inl (e, r1) \<Rightarrow> Fail e r1
            | Inr r1 \<Rightarrow>
                Continue (boundBuffer
                  (if hasPrev then r1\<lparr>buffer := drop (nat startCodeIdx) (buffer r1)\<rparr>
                   else r1\<lparr>buffer := drop (nat nalEnd) (buffer r1)\<rparr>)))
      else if startCodeIdx + 4 > len (buffer r) then Fail SliceOutOfRange r
      else Continue (boundBuffer (r\<lparr>buffer := drop (nat (startCodeIdx + 4)) (buffer r)\<rparr>)))"

definition scanStep :: "RTSPVideoSource \<Rightarrow> step" where
  "scanStep r =
     (case locateStartCode (buffer r) of (startCodeIdx, startCodeLen) \<Rightarrow>
        if startCodeIdx \<ge> 0 then
          (case findPrevStartCode (buffer r) (startCodeIdx - 1) of
             (prevStartCodeIdx, prevStartCodeLen) \<Rightarrow>
               if prevStartCodeIdx \<ge> 0 then
                 extractNAL r True startCodeIdx prevStartCodeIdx startCodeIdx prevStartCodeLen
               else
                 (let nextStartCodeIdx =
                        findNextStartCode (buffer r) (startCodeIdx + startCodeLen)
                  in if nextStartCodeIdx \<ge> 0 then
                       extractNAL r False startCodeIdx startCodeIdx nextStartCodeIdx startCodeLen
                     else Break r))
        else
          (case sendFirstIDR r of
             Inl (e, r1) \<Rightarrow> Fail e r1
           | Inr r1 \<Rightarrow> Break r1))"

subsection \<open>The scan loop terminates\<close>

text \<open>
  Every pass that goes round again has removed the bytes in front of a start code, or a
  start code, from the scan buffer; the indices found by the searches give the bounds.
\<close>

declare findStartCode4_from.simps [simp del] findStartCode3_from.simps [simp del]
  findPrevStartCode.simps [simp del] findNextStartCode.simps [simp del]
  hasIDR_walk.simps [simp del] hasIDR_scan.simps [simp del] scanParameterSets.simps [simp del]

lemma findStartCode4_from_bounds:
  "0 \<le> i \<Longrightarrow> 0 \<le> findStartCode4_from b i \<Longrightarrow>
     i \<le> findStartCode4_from b i \<and> findStartCode4_from b i + 3 < len b"
proof (induction b i rule: findStartCode4_from.induct)
  case (1 b i)
  show ?case
  proof (cases "i \<le> len b - 4")
    case False
    with "1.prems" show ?thesis by (simp add: findStartCode4_from.simps [of b i])
  next
    case True
    show ?thesis
    proof (cases "isStartCode4 b i")
      case hit: True
      with True show ?thesis by (simp add: findStartCode4_from.simps [of b i])
    next
      case miss: False
      with True "1.prems" have "0 \<le> findStartCode4_from b (i + 1)"
        by (simp add: findStartCode4_from.simps [of b i])
      with "1.IH" [OF True miss] "1.prems" True miss show ?thesis
        by (simp add: findStartCode4_from.simps [of b i])
    qed
  qed
qed

lemma findStartCode3_from_bounds:
  "1 \<le> i \<Longrightarrow> 0 \<le> findStartCode3_from b i \<Longrightarrow>
     i \<le> findStartCode3_from b i \<and> findStartCode3_from b i + 2 < len b"
proof (induction b i rule: findStartCode3_from.induct)
  case (1 b i)
  show ?case
  proof (cases "i \<le> len b - 3")
    case False
    with "1.prems" show ?thesis by (simp add: findStartCode3_from.simps [of b i])
  next
    case True
    show ?thesis
    proof (cases "i > 0 \<and> at b (i - 1) = 0")
      case skip: True
      with True "1.prems" have "0 \<le> findStartCode3_from b (i + 1)"
        by (simp add: findStartCode3_from.simps [of b i])
      with "1.IH"(1) [OF True skip] "1.prems" True skip show ?thesis
        by (simp add: findStartCode3_from.simps [of b i])
    next
      case noskip: False
      show ?thesis
      proof (cases "isStartCode3 b i")
        case hit: True
        with True noskip show ?thesis by (subst (1 2) findStartCode3_from.simps) auto
      next
        case miss: False
        with True noskip "1.prems" have "0 \<le> findStartCode3_from b (i + 1)"
          by (subst (asm) findStartCode3_from.simps) auto
        with "1.IH"(2) [OF True noskip miss] "1.prems" have
          "i + 1 \<le> findStartCode3_from b (i + 1) \<and> findStartCode3_from b (i + 1) + 2 < len b"
          by simp
        with True noskip miss show ?thesis
          by (subst (1 2) findStartCode3_from.simps) auto
      qed
    qed
  qed
qed

lemma locateStartCode_bounds:
  "locateStartCode b = (idx, n) \<Longrightarrow> 0 \<le> idx \<Longrightarrow> (n = 3 \<or> n = 4) \<and> idx + n \<le> len b"
  using findStartCode4_from_bounds [of 0 b] findStartCode3_from_bounds [of 1 b]
  by (auto simp: locateStartCode_def findStartCode4_def findStartCode3_def split: if_splits)

lemma findPrevStartCode_bounds:
  "findPrevStartCode b i = (p, n) \<Longrightarrow> 0 \<le> p \<Longrightarrow> (n = 3 \<or> n = 4) \<and> p + n \<le> i + 1"
proof (induction b i arbitrary: p n rule: findPrevStartCode.induct)
  case (1 b i)
  show ?case
  proof (cases "i \<ge> 0")
    case False
    with "1.prems" show ?thesis by (simp add: findPrevStartCode.simps [of b i])
  next
    case True
    show ?thesis
    proof (cases "i \<ge> 3 \<and> isStartCode4 b (i - 3)")
      case four: True
      with True "1.prems" show ?thesis by (simp add: findPrevStartCode.simps [of b i])
    next
      case nofour: False
      show ?thesis
      proof (cases "i \<ge> 2 \<and> isStartCode3 b (i - 2)")
        case three: True
        with True nofour "1.prems" show ?thesis
          by (subst (asm) findPrevStartCode.simps) auto
      next
        case nothree: False
        with True nofour "1.prems" have "findPrevStartCode b (i - 1) = (p, n)"
          by (subst (asm) findPrevStartCode.simps) auto
        from "1.IH" [OF True nofour nothree this "1.prems"(2)] show ?thesis by auto
      qed
    qed
  qed
qed

lemma findNextStartCode_bounds:
  "0 \<le> findNextStartCode b i \<Longrightarrow> 0 \<le> i \<Longrightarrow>
     i \<le> findNextStartCode b i \<and> findNextStartCode b i < len b - 3"
proof (induction b i rule: findNextStartCode.induct)
  case (1 b i)
  show ?case
  proof (cases "i < len b - 3")
    case False
    with "1.prems" show ?thesis by (simp add: findNextStartCode.simps [of b i])
  next
    case True
    show ?thesis
    proof (cases "i + 3 < len b \<and> isStartCode4 b i")
      case four: True
      with True show ?thesis by (simp add: findNextStartCode.simps [of b i])
    next
      case nofour: False
      show ?thesis
      proof (cases "i + 2 < len b \<and> isStartCode3 b i \<and> (i = 0 \<or> at b (i - 1) \<noteq> 0)")
        case three: True
        with True nofour show ?thesis by (subst (1 2) findNextStartCode.simps) auto
      next
        case nothree: False
        with True nofour "1.prems" have "0 \<le> findNextStartCode b (i + 1)"
          by (subst (asm) findNextStartCode.simps) auto
        with "1.IH" [OF True nofour nothree] "1.prems" have
          "i + 1 \<le> findNextStartCode b (i + 1) \<and> findNextStartCode b (i + 1) < len b - 3" by simp
        with True nofour nothree show ?thesis
          by (subst (1 2) findNextStartCode.simps) auto
      qed
    qed
  qed
qed

lemma sendCurrentFrame_buffer: "sendCurrentFrame r = Inr r' \<Longrightarrow> buffer r' = buffer r"
  by (auto simp: sendCurrentFrame_def queueFrame_def Let_def split: sum.splits)

lemma sendAfterAUD_buffer: "sendAfterAUD r = Inr r' \<Longrightarrow> buffer r' = buffer r"
  by (auto simp: sendAfterAUD_def queueFrame_def Let_def split: sum.splits)

lemma saveParameterSets_buffer: "buffer (saveParameterSets r) = buffer r"
  by (simp add: saveParameterSets_def split: prod.splits)

lemma processNAL_buffer: "processNAL nalUnit r = Inr r' \<Longrightarrow> buffer r' = buffer r"
  unfolding processNAL_def Let_def
  by (auto split: sum.splits if_splits
      dest!: sendCurrentFrame_buffer sendAfterAUD_buffer simp: saveParameterSets_buffer)

lemma boundBuffer_length: "length (buffer (boundBuffer r)) \<le> length (buffer r)"
  by (simp add: boundBuffer_def)

lemma extractNAL_shrinks:
  assumes "extractNAL r hasPrev startCodeIdx nalStart nalEnd prevLen = Continue r'"
    and "0 < startCodeIdx \<or> \<not> hasPrev" and "0 \<le> startCodeIdx"
    and "0 < nalEnd" and "nalEnd \<le> len (buffer r)" and "startCodeIdx \<le> len (buffer r)"
    and "0 < len (buffer r)"
  shows "length (buffer r') < length (buffer r)"
proof (cases "nalEnd > nalStart \<and> nalEnd - nalStart > prevLen")
  case True
  let ?nal = "sliceOf (buffer r) nalStart nalEnd"
  obtain r1 where r1: "(if len ?nal > prevLen + 1 then processNAL ?nal r else Inr r) = Inr r1"
    and r': "r' = boundBuffer (if hasPrev then r1\<lparr>buffer := drop (nat startCodeIdx) (buffer r1)\<rparr>
                   else r1\<lparr>buffer := drop (nat nalEnd) (buffer r1)\<rparr>)"
    using assms(1) True by (auto simp: extractNAL_def Let_def split: sum.splits prod.splits)
  from r1 have b: "buffer r1 = buffer r"
    by (auto split: if_splits dest: processNAL_buffer)
  have "length (buffer r') \<le> length (buffer (if hasPrev then r1\<lparr>buffer := drop (nat startCodeIdx) (buffer r1)\<rparr>
                   else r1\<lparr>buffer := drop (nat nalEnd) (buffer r1)\<rparr>))"
    unfolding r' by (rule boundBuffer_length)
  also have "\<dots> < length (buffer r)"
    using assms(2-) b by (auto simp: len_def)
  finally show ?thesis .
next
  case False
  with assms(1) have ok: "\<not> startCodeIdx + 4 > len (buffer r)"
    and r': "r' = boundBuffer (r\<lparr>buffer := drop (nat (startCodeIdx + 4)) (buffer r)\<rparr>)"
    by (auto simp: extractNAL_def split: if_splits)
  have "length (buffer r') \<le> length (buffer (r\<lparr>buffer := drop (nat (startCodeIdx + 4)) (buffer r)\<rparr>))"
    unfolding r' by (rule boundBuffer_length)
  also have "\<dots> < length (buffer r)"
    using assms(3-) ok by (auto simp: len_def)
  finally show ?thesis .
qed

lemma scanStep_shrinks:
  assumes "scanStep r = Continue r'"
  shows "length (buffer r') < length (buffer r)"
proof -
  obtain idx n where loc: "locateStartCode (buffer r) = (idx, n)" by (cases "locateStartCode (buffer r)")
  obtain p pn where prev: "findPrevStartCode (buffer r) (idx - 1) = (p, pn)"
    by (cases "findPrevStartCode (buffer r) (idx - 1)")
  from assms loc have idx: "0 \<le> idx"
    by (auto simp: scanStep_def split: if_splits sum.splits prod.splits)
  from locateStartCode_bounds [OF loc idx] have n: "n = 3 \<or> n = 4" and fits: "idx + n \<le> len (buffer r)"
    by auto
  show ?thesis
  proof (cases "0 \<le> p")
    case True
    from findPrevStartCode_bounds [OF prev True] have "p + pn \<le> idx" "pn = 3 \<or> pn = 4" by auto
    with True have pos: "0 < idx" by auto
    from assms loc prev idx True
    have "extractNAL r True idx p idx pn = Continue r'"
      by (simp add: scanStep_def)
    from extractNAL_shrinks [OF this] pos fits n show ?thesis by auto
  next
    case False
    let ?nx = "findNextStartCode (buffer r) (idx + n)"
    from assms loc prev idx False have nx: "0 \<le> ?nx"
      and ex: "extractNAL r False idx idx ?nx n = Continue r'"
      by (auto simp: scanStep_def Let_def split: if_splits)
    from findNextStartCode_bounds [OF nx] idx n have "idx + n \<le> ?nx" "?nx < len (buffer r) - 3"
      by auto
    with extractNAL_shrinks [OF ex] idx n fits show ?thesis by auto
  qed
qed


text \<open>
  The inner \<^verbatim>\<open>for\<close> loop of \<^verbatim>\<open>readFrames\<close>: it either leaves with \<^verbatim>\<open>break\<close>
  (\<open>Inr\<close>) or stops with a fault (\<open>Inl\<close>).
\<close>

function scanLoop :: "RTSPVideoSource \<Rightarrow> fault \<times> RTSPVideoSource + RTSPVideoSource" where
  "scanLoop r =
     (case scanStep r of
        Continue r' \<Rightarrow> scanLoop r'
      | Break r' \<Rightarrow> Inr r'
      | Fail e r' \<Rightarrow> Inl (e, r'))"
  by pat_completeness auto
termination
  by (relation "measure (\<lambda>r. length (buffer r))") (auto dest: scanStep_shrinks)

declare scanLoop.simps [simp del]

subsection \<open>The read loop\<close>

text \<open>
  What the outer loop of \<^verbatim>\<open>readFrames\<close> meets: \<^verbatim>\<open>reader.Read(chunk)\<close> returns the bytes
  read (up to 8 KB), end of file, or another error; between two passes another goroutine may
  have called \<^verbatim>\<open>Close\<close>, or the consumer (\<^verbatim>\<open>ReadFrame\<close>) may have taken a frame from
  the channel.
\<close>

datatype read_event =
  Read "byte list" | ReadEOF | ReadFailed string | CloseCalled | FrameTaken

text \<open>
  How \<^verbatim>\<open>readFrames\<close> ends: it returns (and its deferred calls close both channels), it
  stops with a fault, or it is still waiting in \<^verbatim>\<open>Read\<close> when the events run out.
\<close>

datatype outcome =
  Returned RTSPVideoSource | Crashed fault RTSPVideoSource | Reading RTSPVideoSource

fun sourceOf :: "outcome \<Rightarrow> RTSPVideoSource" where
  "sourceOf (Returned r) = r"
| "sourceOf (Crashed e r) = r"
| "sourceOf (Reading r) = r"

text \<open>
  The branch \<^verbatim>\<open>if err != nil\<close>: the error goes to the error channel and what is left
  in the scan buffer goes to the frame channel, both without blocking.
\<close>

definition readFailed :: "string \<Rightarrow> RTSPVideoSource \<Rightarrow> RTSPVideoSource" where
  "readFailed errMsg r =
     (let r1 = r\<lparr>errChan := sendErrorSafely (errChan r) errMsg\<rparr>
      in if len (buffer r1) > 0 then
           r1\<lparr>frameChan := fst (sendFrameSafely (frameChan r1) (buffer r1)),
              sent := sent r1 @ [Emission Flush (buffer r1) (spsPps r1) (buffer r1)
                                   (snd (sendFrameSafely (frameChan r1) (buffer r1)))]\<rparr>
         else r1)"

fun readFrames :: "RTSPVideoSource \<Rightarrow> read_event list \<Rightarrow> outcome" where
  "readFrames r [] = (if closed r then Returned r else Reading r)"
| "readFrames r (CloseCalled # evs) = readFrames (snd (snd (Close r))) evs"
| "readFrames r (FrameTaken # evs) =
     readFrames (case tryRecv (frameChan r) of
                   Some (taken, rest) \<Rightarrow> r\<lparr>frameChan := rest\<rparr>
                 | None \<Rightarrow> r) evs"
| "readFrames r (ReadEOF # evs) =
     (if closed r then Returned r
      else Returned (readFailed ''FFmpeg stdout closed (EOF) - process may have exited'' r))"
| "readFrames r (ReadFailed err # evs) =
     (if closed r then Returned r
      else Returned (readFailed
             (''failed to read from FFmpeg stdout: '' @ err @ '' (FFmpeg may have exited)'') r))"
| "readFrames r (Read chunk # evs) =
     (if closed r then Returned r
      else if length chunk = 0 then readFrames r evs
      else
        (let r1 = r\<lparr>buffer := buffer r @ chunk\<rparr>
         in if len (buffer r1) < 20 then readFrames r1 evs
            else (case scanLoop r1 of
                    Inl (e, r2) \<Rightarrow> Crashed e r2
                  | Inr r2 \<Rightarrow> readFrames r2 evs)))"

text \<open>
  The state changes of a successful \<^verbatim>\<open>Start\<close>: both pipes exist and the child runs,
  after which \<^verbatim>\<open>readFrames\<close> is started on the source.
\<close>

definition started :: "RTSPVideoSource \<Rightarrow> RTSPVideoSource" where
  "started r = r\<lparr>cmd := Some (ExecCmd True), stdout := Some (Pipe True)\<rparr>"

section \<open>Signalling messages\<close>

text \<open>
  A decoded JSON value (\<^verbatim>\<open>interface{}\<close> after \<^verbatim>\<open>json.Unmarshal\<close>). Go decodes numbers
  to \<^verbatim>\<open>float64\<close>; the integral ones are modelled. A nested object is the list of the
  entries of its decoded map, each key once. A message is the decoded top-level object,
  \<^verbatim>\<open>map[string]interface{}\<close>.
\<close>

datatype json =
  JNull | JBool bool | JNumber int | JString string | JArray "json list"
  | JObject "(string \<times> json) list"

type_synonym rawMsg = "string \<rightharpoonup> json"

text \<open>
  The result of \<^verbatim>\<open>json.Unmarshal(messageBytes, &rawMsg)\<close> on a nil map: an error for
  text that is not a JSON object, no error and a map that is still \<^verbatim>\<open>nil\<close> for the
  text \<^verbatim>\<open>null\<close>, and otherwise the object.
\<close>

datatype parsed = Malformed | JsonNull | JsonObject rawMsg

section \<open>The signalling broker (package signaling)\<close>

text \<open>
  A \<^verbatim>\<open>*Client\<close>: \<open>ptr\<close> stands for the pointer, which is what the client table is keyed
  by and what \<^verbatim>\<open>client != c\<close> compares. \<open>send\<close> is the buffered channel of capacity 256,
  holding the messages queued for the client's socket. The table
  \<^verbatim>\<open>clients map[*Client]bool\<close> is the list of the clients in it; a client whose channel
  has been closed has been deleted from the table in the same step.
\<close>

record Client =
  ptr :: nat
  clientID :: string
  send :: "rawMsg list"

definition sendCap :: nat where
  "sendCap = 256"

text \<open>
  The server: the client table, and the clients that \<^verbatim>\<open>HandleWebSocket\<close> has created
  and is handing to \<^verbatim>\<open>Run\<close> over the unbuffered \<^verbatim>\<open>register\<close> channel.
\<close>

record SignalingServer =
  clients :: "Client list"
  registering :: "Client list"

definition NewSignalingServer :: SignalingServer where
  "NewSignalingServer = \<lparr> clients = [], registering = [] \<rparr>"

text \<open>\<^verbatim>\<open>%d\<close> of \<^verbatim>\<open>fmt.Sprintf\<close> on a number that is not negative.\<close>

function decimal :: "nat \<Rightarrow> string" where
  "decimal n =
     (if n < 10 then [char_of (48 + n)]
      else decimal (n div 10) @ [char_of (48 + n mod 10)])"
  by pat_completeness auto
termination
  by (relation "measure (\<lambda>n. n)") auto

declare decimal.simps [simp del]

text \<open>
  \<^verbatim>\<open>HandleWebSocket\<close> after a successful upgrade of connection \<open>p\<close>: the id is computed
  from the size of the table under the lock, the lock is released, and the new client
  is sent to \<^verbatim>\<open>register\<close>.
\<close>

definition HandleWebSocket :: "nat \<Rightarrow> SignalingServer \<Rightarrow> SignalingServer" where
  "HandleWebSocket p s =
     (let clientCount = length (clients s);
          newID = ''client-'' @ decimal (clientCount + 1);
          client = \<lparr> ptr = p, clientID = newID, send = [] \<rparr>
      in s\<lparr>registering := registering s @ [client]\<rparr>)"

text \<open>
  The loop \<^verbatim>\<open>for client := range clients { if client != c { select { case client.send <- msg: default: close; delete } } }\<close>,
  shared by the join notification and by message routing. Each pass touches only the
  client it visits, so the order of the passes has no effect on the result.
\<close>

fun broadcastFrom :: "nat \<Rightarrow> rawMsg \<Rightarrow> Client list \<Rightarrow> Client list" where
  "broadcastFrom sender msg [] = []"
| "broadcastFrom sender msg (client # rest) =
     (if ptr client \<noteq> sender then
        (case trySend sendCap (send client) msg of
           Some q \<Rightarrow> client\<lparr>send := q\<rparr> # broadcastFrom sender msg rest
         | None \<Rightarrow> broadcastFrom sender msg rest)
      else client # broadcastFrom sender msg rest)"

text \<open>
  \<^verbatim>\<open>Run\<close>, case \<^verbatim>\<open>client := <-s.register\<close>, for the waiting client with pointer \<open>p\<close>.
  Assigning \<^verbatim>\<open>s.clients[client] = true\<close> for a key already present changes nothing.
\<close>

definition registerClient :: "nat \<Rightarrow> SignalingServer \<Rightarrow> SignalingServer" where
  "registerClient p s =
     (case filter (\<lambda>c. ptr c = p) (registering s) of
        [] \<Rightarrow> s
      | client # others \<Rightarrow>
          (let hasExistingClients = length (clients s) > 0;
               table = (if p \<in> ptr ` set (clients s) then clients s else clients s @ [client]);
               notifyMsg = [''type'' \<mapsto> JString ''viewer_connected'',
                            ''clientId'' \<mapsto> JString (clientID client)];
               table' = (if hasExistingClients then broadcastFrom p notifyMsg table else table)
           in s\<lparr>clients := table', registering := filter (\<lambda>c. ptr c \<noteq> p) (registering s)\<rparr>))"

text \<open>\<^verbatim>\<open>Run\<close>, case \<^verbatim>\<open>client := <-s.unregister\<close>.\<close>

definition unregisterClient :: "nat \<Rightarrow> SignalingServer \<Rightarrow> SignalingServer" where
  "unregisterClient p s = s\<lparr>clients := filter (\<lambda>c. ptr c \<noteq> p) (clients s)\<rparr>"

text \<open>What happens at the broker, in the order in which \<^verbatim>\<open>Run\<close> and the handlers get to it.\<close>

datatype broker_event = Upgrade nat | Register nat | Unregister nat

fun brokerStep :: "SignalingServer \<Rightarrow> broker_event \<Rightarrow> SignalingServer" where
  "brokerStep s (Upgrade p) = HandleWebSocket p s"
| "brokerStep s (Register p) = registerClient p s"
| "brokerStep s (Unregister p) = unregisterClient p s"

definition brokerRun :: "broker_event list \<Rightarrow> SignalingServer" where
  "brokerRun evs = foldl brokerStep NewSignalingServer evs"

text \<open>The ids held by the clients in the table.\<close>

definition connectedIDs :: "SignalingServer \<Rightarrow> string list" where
  "connectedIDs s = map clientID (clients s)"

text \<open>
  The body of the \<^verbatim>\<open>readPump\<close> loop of client \<open>c\<close> for one message read from its socket.
  Text that does not decode is skipped with \<^verbatim>\<open>continue\<close>; assigning into the nil map
  left by \<^verbatim>\<open>null\<close> panics.
\<close>

datatype broker_fault = NilMapAssignment

definition stampMessage :: "Client \<Rightarrow> rawMsg \<Rightarrow> rawMsg" where
  "stampMessage c m =
     (let m1 = (if m ''clientId'' = None then m(''clientId'' \<mapsto> JString (clientID c)) else m)
      in m1(''fromClientId'' \<mapsto> JString (clientID c)))"

definition routeMessage :: "Client \<Rightarrow> parsed \<Rightarrow> Client list \<Rightarrow> broker_fault + Client list" where
  "routeMessage c text table =
     (case text of
        Malformed \<Rightarrow> Inr table
      | JsonNull \<Rightarrow> Inl NilMapAssignment
      | JsonObject m \<Rightarrow> Inr (broadcastFrom (ptr c) (stampMessage c m) table))"

section \<open>The publisher's signalling loop (cmd/publisher)\<close>

text \<open>
  \<^verbatim>\<open>webrtc.ICECandidateInit\<close> as the handler fills it. \<^verbatim>\<open>uint16(sdpMLineIndex)\<close> is taken
  modulo \<open>2^16\<close>.
\<close>

record ICECandidateInit =
  Candidate :: string
  SDPMLineIndex :: "16 word option"
  SDPMid :: "string option"

text \<open>
  What the handler can observe of, and does to, a viewer's \<^verbatim>\<open>*webrtc.PeerConnection\<close>:
  the remote description (\<^verbatim>\<open>nil\<close> until \<^verbatim>\<open>SetRemoteDescription\<close> has succeeded), the
  calls of \<^verbatim>\<open>AddICECandidate\<close> in order, each with whether the remote description was set
  when the call was made, and whether \<^verbatim>\<open>Close\<close> has been called.
\<close>

record PeerConnection =
  remoteDescription :: "string option"
  addICECandidateCalls :: "(ICECandidateInit \<times> bool) list"
  pcClosed :: bool

record ViewerConnection =
  viewerID :: string
  pc :: PeerConnection

text \<open>
  The publisher: the viewer table \<^verbatim>\<open>viewers map[string]*ViewerConnection\<close>, the messages
  written to the broker socket, and the viewer connections that were closed and deleted
  from the table.
\<close>

record Publisher =
  viewers :: "string \<rightharpoonup> ViewerConnection"
  outbox :: "rawMsg list"
  dropped :: "ViewerConnection list"

text \<open>
  What the WebRTC stack and the socket answer during one message: whether
  \<^verbatim>\<open>createViewerConnection\<close> fails, whether \<^verbatim>\<open>sendOffer\<close> fails, the SDP of the offer
  created, and whether \<^verbatim>\<open>SetRemoteDescription\<close> rejects the answer.
\<close>

record stack =
  createFails :: bool
  offerFails :: bool
  offerSDP :: string
  setRemoteFails :: bool

datatype publisher_fault = TypeAssertionFailed

text \<open>\<^verbatim>\<open>v, ok := x.(string)\<close> on a map entry.\<close>

definition asString :: "json option \<Rightarrow> string option" where
  "asString x = (case x of Some (JString t) \<Rightarrow> Some t | _ \<Rightarrow> None)"

definition removeViewer :: "string \<Rightarrow> Publisher \<Rightarrow> Publisher" where
  "removeViewer clientId p =
     (case viewers p clientId of
        Some viewer \<Rightarrow>
          p\<lparr>viewers := (viewers p)(clientId := None),
            dropped := dropped p @ [viewer\<lparr>pc := (pc viewer)\<lparr>pcClosed := True\<rparr>\<rparr>]\<rparr>
      | None \<Rightarrow> p)"

text \<open>
  The id a message is routed by in the \<^verbatim>\<open>answer\<close> and \<^verbatim>\<open>candidate\<close> cases:
  \<^verbatim>\<open>clientId\<close> when it is a string, otherwise \<^verbatim>\<open>fromClientId\<close> when that is one.
\<close>

definition routingID :: "rawMsg \<Rightarrow> string option" where
  "routingID msg =
     (case asString (msg ''clientId'') of
        Some clientId \<Rightarrow> Some clientId
      | None \<Rightarrow> asString (msg ''fromClientId''))"

definition onViewerConnected :: "stack \<Rightarrow> rawMsg \<Rightarrow> Publisher \<Rightarrow> Publisher" where
  "onViewerConnected env msg p =
     (case asString (msg ''clientId'') of
        None \<Rightarrow> p
      | Some clientId \<Rightarrow>
          (let p1 = removeViewer clientId p
           in if createFails env then p1
              else
                (let viewerConn = \<lparr> viewerID = clientId,
                        pc = \<lparr> remoteDescription = None, addICECandidateCalls = [],
                               pcClosed = False \<rparr> \<rparr>;
                     p2 = p1\<lparr>viewers := (viewers p1)(clientId \<mapsto> viewerConn)\<rparr>
                 in if offerFails env then removeViewer clientId p2
                    else p2\<lparr>outbox := outbox p2 @
                           [[''type'' \<mapsto> JString ''offer'',
                             ''clientId'' \<mapsto> JString clientId,
                             ''offer'' \<mapsto> JObject [(''type'', JString ''offer''),
                                                      (''sdp'', JString (offerSDP env))]]]\<rparr>)))"

definition onAnswer :: "stack \<Rightarrow> rawMsg \<Rightarrow> Publisher \<Rightarrow> publisher_fault + Publisher" where
  "onAnswer env msg p =
     (case routingID msg of
        None \<Rightarrow> Inr p
      | Some clientId \<Rightarrow>
          (case viewers p clientId of
             None \<Rightarrow> Inr p
           | Some viewer \<Rightarrow>
               (case msg ''answer'' of
                  Some (JObject answerSDP) \<Rightarrow>
                    (case asString (map_of answerSDP ''sdp'') of
                       None \<Rightarrow> Inr p
                     | Some sdpStr \<Rightarrow>
                         if setRemoteFails env then Inr p
                         else Inr (p\<lparr>viewers := (viewers p)(clientId \<mapsto>
                                viewer\<lparr>pc := (pc viewer)\<lparr>remoteDescription := Some sdpStr\<rparr>\<rparr>)\<rparr>))
                | _ \<Rightarrow> Inl TypeAssertionFailed)))"

definition candidateOf :: "(string \<times> json) list \<Rightarrow> string \<Rightarrow> ICECandidateInit" where
  "candidateOf candidateMap text =
     \<lparr> Candidate = text,
       SDPMLineIndex = (case map_of candidateMap ''sdpMLineIndex'' of
                          Some (JNumber n) \<Rightarrow> Some (word_of_int n)
                        | _ \<Rightarrow> None),
       SDPMid = asString (map_of candidateMap ''sdpMid'') \<rparr>"

text \<open>
  The \<^verbatim>\<open>candidate\<close> case: the candidate is built from the message and handed to
  \<^verbatim>\<open>viewer.pc.AddICECandidate\<close>; an error returned by that call is logged.
\<close>

definition onCandidate :: "rawMsg \<Rightarrow> Publisher \<Rightarrow> publisher_fault + Publisher" where
  "onCandidate msg p =
     (case routingID msg of
        None \<Rightarrow> Inr p
      | Some clientId \<Rightarrow>
          (case viewers p clientId of
             None \<Rightarrow> Inr p
           | Some viewer \<Rightarrow>
               (case msg ''candidate'' of
                  Some (JObject candidateMap) \<Rightarrow>
                    (case map_of candidateMap ''candidate'' of
                       Some (JString text) \<Rightarrow>
                         Inr (p\<lparr>viewers := (viewers p)(clientId \<mapsto>
                                viewer\<lparr>pc := (pc viewer)\<lparr>addICECandidateCalls :=
                                  addICECandidateCalls (pc viewer) @
                                    [(candidateOf candidateMap text,
                                      remoteDescription (pc viewer) \<noteq> None)]\<rparr>\<rparr>)\<rparr>)
                     | _ \<Rightarrow> Inl TypeAssertionFailed)
                | _ \<Rightarrow> Inl TypeAssertionFailed)))"

text \<open>The body of the \<^verbatim>\<open>readMessages\<close> loop for one message read from the socket.\<close>

definition handleMessage ::
  "stack \<Rightarrow> parsed \<Rightarrow> Publisher \<Rightarrow> publisher_fault + Publisher" where
  "handleMessage env text p =
     (case text of
        Malformed \<Rightarrow> Inr p
      | JsonNull \<Rightarrow> Inr p
      | JsonObject msg \<Rightarrow>
          (let msgType = (case asString (msg ''type'') of Some t \<Rightarrow> t | None \<Rightarrow> [])
           in if msgType = ''viewer_connected'' then Inr (onViewerConnected env msg p)
              else if msgType = ''answer'' then onAnswer env msg p
              else if msgType = ''candidate'' then onCandidate msg p
              else Inr p))"

fun readMessages ::
  "Publisher \<Rightarrow> (stack \<times> parsed) list \<Rightarrow> publisher_fault + Publisher" where
  "readMessages p [] = Inr p"
| "readMessages p ((env, text) # rest) =
     (case handleMessage env text p of
        Inl e \<Rightarrow> Inl e
      | Inr p' \<Rightarrow> readMessages p' rest)"

definition NewPublisher :: Publisher where
  "NewPublisher = \<lparr> viewers = Map.empty, outbox = [], dropped = [] \<rparr>"

section \<open>Properties of the start-code search\<close>

lemma findStartCode3_from_hit:
  "1 \<le> i \<Longrightarrow> 0 \<le> findStartCode3_from b i \<Longrightarrow>
     isStartCode3 b (findStartCode3_from b i) \<and> at b (findStartCode3_from b i - 1) \<noteq> 0"
proof (induction b i rule: findStartCode3_from.induct)
  case (1 b i)
  show ?case
  proof (cases "i \<le> len b - 3")
    case False
    with "1.prems" show ?thesis by (simp add: findStartCode3_from.simps [of b i])
  next
    case True
    show ?thesis
    proof (cases "i > 0 \<and> at b (i - 1) = 0")
      case skip: True
      with True have eq: "findStartCode3_from b i = findStartCode3_from b (i + 1)"
        by (simp add: findStartCode3_from.simps [of b i])
      with "1.IH"(1) [OF True skip] "1.prems" show ?thesis by simp
    next
      case noskip: False
      show ?thesis
      proof (cases "isStartCode3 b i")
        case hit: True
        with True noskip have "findStartCode3_from b i = i"
          by (subst findStartCode3_from.simps) auto
        with hit noskip "1.prems" show ?thesis by auto
      next
        case miss: False
        with True noskip have eq: "findStartCode3_from b i = findStartCode3_from b (i + 1)"
          by (subst findStartCode3_from.simps) auto
        with "1.IH"(2) [OF True noskip miss] "1.prems" show ?thesis by simp
      qed
    qed
  qed
qed

lemma findStartCode3_from_none:
  "1 \<le> i \<Longrightarrow> findStartCode3_from b i < 0 \<Longrightarrow> findStartCode3_from b i = -1"
proof (induction b i rule: findStartCode3_from.induct)
  case (1 b i)
  show ?case
  proof (cases "i \<le> len b - 3")
    case False
    then show ?thesis by (simp add: findStartCode3_from.simps [of b i])
  next
    case True
    show ?thesis
    proof (cases "i > 0 \<and> at b (i - 1) = 0")
      case skip: True
      with True have eq: "findStartCode3_from b i = findStartCode3_from b (i + 1)"
        by (simp add: findStartCode3_from.simps [of b i])
      with "1.IH"(1) [OF True skip] "1.prems" show ?thesis by simp
    next
      case noskip: False
      show ?thesis
      proof (cases "isStartCode3 b i")
        case hit: True
        with True noskip have "findStartCode3_from b i = i"
          by (subst findStartCode3_from.simps) auto
        with "1.prems" show ?thesis by simp
      next
        case miss: False
        with True noskip have eq: "findStartCode3_from b i = findStartCode3_from b (i + 1)"
          by (subst findStartCode3_from.simps) auto
        with "1.IH"(2) [OF True noskip miss] "1.prems" show ?thesis by simp
      qed
    qed
  qed
qed

lemma findStartCode4_from_hit:
  "0 \<le> findStartCode4_from b i \<Longrightarrow> 0 \<le> i \<Longrightarrow> isStartCode4 b (findStartCode4_from b i)"
proof (induction b i rule: findStartCode4_from.induct)
  case (1 b i)
  show ?case
  proof (cases "i \<le> len b - 4")
    case False
    with "1.prems" show ?thesis by (simp add: findStartCode4_from.simps [of b i])
  next
    case True
    show ?thesis
    proof (cases "isStartCode4 b i")
      case hit: True
      with True show ?thesis by (simp add: findStartCode4_from.simps [of b i])
    next
      case miss: False
      with True have eq: "findStartCode4_from b i = findStartCode4_from b (i + 1)"
        by (simp add: findStartCode4_from.simps [of b i])
      with "1.IH" [OF True miss] "1.prems" show ?thesis by simp
    qed
  qed
qed

lemma findStartCode4_from_first:
  "i \<le> k \<Longrightarrow> k + 3 < len b \<Longrightarrow> isStartCode4 b k \<Longrightarrow>
     i \<le> findStartCode4_from b i \<and> findStartCode4_from b i \<le> k"
proof (induction b i rule: findStartCode4_from.induct)
  case (1 b i)
  show ?case
  proof (cases "isStartCode4 b i")
    case True
    with "1.prems" show ?thesis by (simp add: findStartCode4_from.simps [of b i])
  next
    case False
    with "1.prems" have "i \<noteq> k" by auto
    with "1.prems" have lt: "i + 1 \<le> k" and inr: "i \<le> len b - 4" by auto
    from "1.IH" [OF inr False lt "1.prems"(2,3)] False inr show ?thesis
      by (simp add: findStartCode4_from.simps [of b i])
  qed
qed

text \<open>
  C8. An index returned by \<^verbatim>\<open>findStartCode3\<close> is at least 1, holds the bytes
  \<open>00 00 01\<close>, and the byte before it is not \<open>00\<close>: a 3-byte match preceded by \<open>00\<close> is
  never reported as a 3-byte code. Wherever the buffer holds \<open>00 00 00 01\<close> at some
  index \<open>k\<close>, the scan of \<^verbatim>\<open>readFrames\<close> takes a 4-byte code, at or before \<open>k\<close>: the
  4-byte form is preferred.
\<close>

theorem findStartCode3_not_after_zero:
  "(0 \<le> findStartCode3 b \<longrightarrow>
      1 \<le> findStartCode3 b \<and> findStartCode3 b + 2 < len b
      \<and> isStartCode3 b (findStartCode3 b)
      \<and> at b (findStartCode3 b - 1) \<noteq> 0)
   \<and> (0 \<le> k \<and> k + 3 < len b \<and> isStartCode4 b k \<longrightarrow>
      snd (locateStartCode b) = 4 \<and> 0 \<le> fst (locateStartCode b)
      \<and> fst (locateStartCode b) \<le> k)"
proof (intro conjI impI)
  assume nonneg: "0 \<le> findStartCode3 b"
  then have eq: "findStartCode3 b = findStartCode3_from b 1"
    by (simp add: findStartCode3_def split: if_splits)
  from findStartCode3_from_bounds [of 1 b] nonneg eq
  show "1 \<le> findStartCode3 b" and "findStartCode3 b + 2 < len b" by simp_all
  from findStartCode3_from_hit [of 1 b] nonneg eq
  show "isStartCode3 b (findStartCode3 b)" and "at b (findStartCode3 b - 1) \<noteq> 0" by simp_all
next
  assume h: "0 \<le> k \<and> k + 3 < len b \<and> isStartCode4 b k"
  then have c: "0 \<le> findStartCode4 b \<and> findStartCode4 b \<le> k"
    using findStartCode4_from_first [of 0 k b] by (simp add: findStartCode4_def)
  then show "snd (locateStartCode b) = 4" by (simp add: locateStartCode_def)
  from c show "0 \<le> fst (locateStartCode b)" by (simp add: locateStartCode_def)
  from c show "fst (locateStartCode b) \<le> k" by (simp add: locateStartCode_def)
qed

theorem findStartCode3_not_after_zero_witness:
  "0 \<le> findStartCode3 [0x65, 0, 0, 1, 0x41] \<and> findStartCode3 [0x65, 0, 0, 1, 0x41] = 1
   \<and> at [0x65 :: byte, 0, 0, 1, 0x41] 0 \<noteq> 0
   \<and> (0 :: int) \<le> 1 \<and> 1 + 3 < len [0x65 :: byte, 0, 0, 0, 1, 0x41]
   \<and> isStartCode4 [0x65, 0, 0, 0, 1, 0x41] 1
   \<and> locateStartCode [0x65, 0, 0, 0, 1, 0x41] = (1, 4)
   \<and> findStartCode3 [0x65, 0, 0, 0, 1, 0x41] = -1"
  using findStartCode3_not_after_zero [of "[0x65, 0, 0, 1, 0x41]" 0]
    findStartCode3_not_after_zero [of "[0x65, 0, 0, 0, 1, 0x41]" 1]
  by (simp add: findStartCode3_def findStartCode3_from.simps findStartCode4_def
      findStartCode4_from.simps locateStartCode_def len_def at_def isStartCode3_def
      isStartCode4_def)

text \<open>
  C9. \<^verbatim>\<open>findStartCode3\<close> never returns index 0. On a buffer that begins with
  \<open>00 00 01\<close> it therefore does not report that leading start code: it returns \<open>-1\<close>
  or an index of at least 3.
\<close>

theorem findStartCode3_never_zero:
  "findStartCode3 b \<noteq> 0
   \<and> (3 \<le> len b \<and> isStartCode3 b 0 \<longrightarrow> findStartCode3 b = -1 \<or> 3 \<le> findStartCode3 b)"
proof (intro conjI impI)
  show "findStartCode3 b \<noteq> 0"
    using findStartCode3_from_bounds [of 1 b]
    by (auto simp: findStartCode3_def)
  assume h: "3 \<le> len b \<and> isStartCode3 b 0"
  show "findStartCode3 b = -1 \<or> 3 \<le> findStartCode3 b"
  proof (cases "0 \<le> findStartCode3 b")
    case False
    then show ?thesis
      using findStartCode3_from_none [of 1 b] by (auto simp: findStartCode3_def)
  next
    case True
    then have eq: "findStartCode3 b = findStartCode3_from b 1"
      by (simp add: findStartCode3_def split: if_splits)
    from findStartCode3_from_bounds [of 1 b] findStartCode3_from_hit [of 1 b] True eq
    have s: "1 \<le> findStartCode3 b" "isStartCode3 b (findStartCode3 b)"
      "at b (findStartCode3 b - 1) \<noteq> 0" by simp_all
    have "findStartCode3 b \<noteq> 1" using s h by (auto simp: isStartCode3_def)
    moreover have "findStartCode3 b \<noteq> 2" using s h by (auto simp: isStartCode3_def)
    ultimately show ?thesis using s by linarith
  qed
qed

theorem findStartCode3_never_zero_witness:
  "3 \<le> len [0 :: byte, 0, 1, 0x65, 0x88] \<and> isStartCode3 [0, 0, 1, 0x65, 0x88] 0
   \<and> findStartCode3 [0, 0, 1, 0x65, 0x88] = -1
   \<and> findStartCode4 [0, 0, 1, 0x65, 0x88] = -1"
  using findStartCode3_never_zero [of "[0, 0, 1, 0x65, 0x88]"]
  by (simp add: findStartCode3_def findStartCode3_from.simps findStartCode4_def
      findStartCode4_from.simps len_def at_def isStartCode3_def isStartCode4_def)

section \<open>Shutdown of the source\<close>

lemma Close_again: "closed r \<Longrightarrow> Close r = (None, [], r)"
  by (simp add: Close_def)

lemma Close_closed: "closed (snd (snd (Close r)))"
  by (auto simp: Close_def Let_def split: option.splits)

lemma CloseTimes_closed: "closed r \<Longrightarrow> CloseTimes n r = ([], r)"
  by (induction n) (simp_all add: Close_again)

text \<open>
  C10. \<^verbatim>\<open>Close\<close> always returns \<^verbatim>\<open>nil\<close>. On a source that is not closed it sets the
  flag, kills and reaps the child (when there is one) and closes stdout (when there is
  one), in this order. On a closed source it does nothing and changes nothing, so any
  number of calls has the effects and the final state of the first one.
\<close>

theorem Close_idempotent:
  "fst (Close r) = None
   \<and> (\<not> closed r \<longrightarrow>
        closed (snd (snd (Close r)))
        \<and> fst (snd (Close r)) =
            (case cmd r of Some c \<Rightarrow> if hasProcess c then [ProcessKill, CmdWait] else []
                         | None \<Rightarrow> [])
            @ (case stdout r of Some p \<Rightarrow> [StdoutClose] | None \<Rightarrow> []))
   \<and> (closed r \<longrightarrow> Close r = (None, [], r))
   \<and> Close (snd (snd (Close r))) = (None, [], snd (snd (Close r)))
   \<and> CloseTimes (Suc n) r = (fst (snd (Close r)), snd (snd (Close r)))"
proof (intro conjI impI)
  show "fst (Close r) = None"
    by (auto simp: Close_def Let_def split: option.splits)
  show "Close (snd (snd (Close r))) = (None, [], snd (snd (Close r)))"
    by (rule Close_again) (rule Close_closed)
  show "CloseTimes (Suc n) r = (fst (snd (Close r)), snd (snd (Close r)))"
    using CloseTimes_closed [OF Close_closed, of n r]
    by (cases "Close r") auto
next
  assume "\<not> closed r"
  then show "closed (snd (snd (Close r)))" by (simp add: Close_closed)
  from \<open>\<not> closed r\<close> show "fst (snd (Close r)) =
            (case cmd r of Some c \<Rightarrow> if hasProcess c then [ProcessKill, CmdWait] else []
                         | None \<Rightarrow> [])
            @ (case stdout r of Some p \<Rightarrow> [StdoutClose] | None \<Rightarrow> [])"
    by (auto simp: Close_def Let_def split: option.splits)
next
  assume "closed r"
  then show "Close r = (None, [], r)" by (rule Close_again)
qed

theorem Close_idempotent_witness:
  "\<not> closed (started (NewRTSPVideoSource ''rtsp://cam/1'' 15 0))
   \<and> fst (snd (Close (started (NewRTSPVideoSource ''rtsp://cam/1'' 15 0))))
       = [ProcessKill, CmdWait, StdoutClose]
   \<and> closed (snd (snd (Close (started (NewRTSPVideoSource ''rtsp://cam/1'' 15 0)))))
   \<and> fst (CloseTimes 3 (started (NewRTSPVideoSource ''rtsp://cam/1'' 15 0)))
       = [ProcessKill, CmdWait, StdoutClose]"
  using Close_idempotent [of "started (NewRTSPVideoSource ''rtsp://cam/1'' 15 0)" 2]
    Close_idempotent [of "snd (snd (Close (started (NewRTSPVideoSource ''rtsp://cam/1'' 15 0))))" 0]
  by (simp add: started_def NewRTSPVideoSource_def numeral_3_eq_3)

section \<open>Fatal stderr lines\<close>

lemma Contains_trans: "Contains s t \<Longrightarrow> Contains t u \<Longrightarrow> Contains s u"
  unfolding Contains_def by (rule sublist_order.order_trans)

lemma failed_in_device_creation: "Contains ''device creation failed'' ''failed''"
  unfolding Contains_def by code_simp

lemma failed_in_initialise: "Contains ''failed to initialise'' ''failed''"
  unfolding Contains_def by code_simp

lemma error_in_io_error: "Contains ''input/output error'' ''error''"
  unfolding Contains_def by code_simp

lemma isHardwareEncoderError_iff:
  "isHardwareEncoderError l \<longleftrightarrow>
     Contains l ''vaapi'' \<and> (Contains l ''failed'' \<or> Contains l ''error'')"
  unfolding isHardwareEncoderError_def
  using Contains_trans [OF _ failed_in_device_creation, of l]
    Contains_trans [OF _ failed_in_initialise, of l]
    Contains_trans [OF _ error_in_io_error, of l]
  by blast

theorem isCriticalLine_404_alone_counterexample:
  "\<not> isCriticalLine ''404'' \<and> stderrLine ''404'' None = None"
  unfolding stderrLine_def by code_simp

text \<open>
  C7. A stderr line is critical exactly when its lower-cased text contains
  \<open>404 not found\<close>, \<open>connection refused\<close>, \<open>failed\<close> or \<open>error opening input\<close>, or
  contains \<open>vaapi\<close> together with \<open>error\<close> (the other VAAPI keywords all contain
  \<open>failed\<close> or \<open>error\<close>). The first critical line is what is recorded as the critical
  error; later ones leave it unchanged.
\<close>

theorem isCriticalLine_iff:
  "(isCriticalLine line \<longleftrightarrow>
      Contains (ToLower line) ''404 not found''
      \<or> Contains (ToLower line) ''connection refused''
      \<or> Contains (ToLower line) ''failed''
      \<or> Contains (ToLower line) ''error opening input''
      \<or> (Contains (ToLower line) ''vaapi'' \<and> Contains (ToLower line) ''error''))
   \<and> stderrLine line None =
       (if isCriticalLine line then Some (''FFmpeg critical error: '' @ line) else None)
   \<and> stderrLine line (Some e) = Some e"
proof (intro conjI)
  show "isCriticalLine line \<longleftrightarrow>
      Contains (ToLower line) ''404 not found''
      \<or> Contains (ToLower line) ''connection refused''
      \<or> Contains (ToLower line) ''failed''
      \<or> Contains (ToLower line) ''error opening input''
      \<or> (Contains (ToLower line) ''vaapi'' \<and> Contains (ToLower line) ''error'')"
    unfolding isCriticalLine_def Let_def isHardwareEncoderError_iff by blast
  have empty: "\<not> isCriticalLine []"
    by code_simp
  show "stderrLine line None =
       (if isCriticalLine line then Some (''FFmpeg critical error: '' @ line) else None)"
    using empty by (cases line) (simp_all add: stderrLine_def)
  show "stderrLine line (Some e) = Some e"
    by (simp add: stderrLine_def)
qed

theorem isCriticalLine_iff_witness:
  "isCriticalLine ''Server returned 404 Not Found''
   \<and> stderrLine ''Server returned 404 Not Found'' None
       = Some (''FFmpeg critical error: '' @ ''Server returned 404 Not Found'')
   \<and> isCriticalLine ''[AVHWDeviceContext] VAAPI: libva error''
   \<and> \<not> isCriticalLine ''frame=  100 fps= 15''"
proof -
  have a: "Contains (ToLower ''Server returned 404 Not Found'') ''404 not found''"
    by code_simp
  have b: "Contains (ToLower ''[AVHWDeviceContext] VAAPI: libva error'') ''vaapi''
           \<and> Contains (ToLower ''[AVHWDeviceContext] VAAPI: libva error'') ''error''"
    by code_simp
  have c: "\<not> (Contains (ToLower ''frame=  100 fps= 15'') ''404 not found''
      \<or> Contains (ToLower ''frame=  100 fps= 15'') ''connection refused''
      \<or> Contains (ToLower ''frame=  100 fps= 15'') ''failed''
      \<or> Contains (ToLower ''frame=  100 fps= 15'') ''error opening input''
      \<or> (Contains (ToLower ''frame=  100 fps= 15'') ''vaapi''
           \<and> Contains (ToLower ''frame=  100 fps= 15'') ''error''))"
    by code_simp
  note t1 = isCriticalLine_iff [of "''Server returned 404 Not Found''"]
  note t2 = isCriticalLine_iff [of "''[AVHWDeviceContext] VAAPI: libva error''"]
  note t3 = isCriticalLine_iff [of "''frame=  100 fps= 15''"]
  from t1 a have c1: "isCriticalLine ''Server returned 404 Not Found''" by blast
  from t1 c1 have s1: "stderrLine ''Server returned 404 Not Found'' None
       = Some (''FFmpeg critical error: '' @ ''Server returned 404 Not Found'')"
    by (simp only: if_True)
  from t2 b have c2: "isCriticalLine ''[AVHWDeviceContext] VAAPI: libva error''" by blast
  from t3 c have c3: "\<not> isCriticalLine ''frame=  100 fps= 15''" by blast
  from c1 s1 c2 c3 show ?thesis by blast
qed

section \<open>The frame channel keeps the newest frame\<close>

lemma sendFinalised_result:
  "length ch \<le> frameChanCap \<Longrightarrow>
     sendFinalised ch f = Inr ((if length ch < frameChanCap then ch else tl ch) @ [f], True)"
  by (cases ch) (auto simp: sendFinalised_def trySend_def tryRecv_def blockingSend_def
      frameChanCap_def)

lemma sendReplacing_result:
  "length ch \<le> frameChanCap \<Longrightarrow>
     sendReplacing ch f = Inr ((if length ch < frameChanCap then ch else tl ch) @ [f], True)"
  by (cases ch) (auto simp: sendReplacing_def trySend_def tryRecv_def blockingSend_def
      frameChanCap_def)

lemma sendFrameSafely_result:
  "sendFrameSafely ch f = (if length ch < frameChanCap then (ch @ [f], True) else (ch, False))"
  by (simp add: sendFrameSafely_def trySend_def)

lemma pushed_length:
  "length ch \<le> frameChanCap \<Longrightarrow>
     length ((if length ch < frameChanCap then ch else tl ch) @ [f]) \<le> frameChanCap"
  by (auto simp: frameChanCap_def)

section \<open>What the parser sends\<close>

text \<open>The bytes begin with \<open>00 00 00 01\<close> or with \<open>00 00 01\<close>.\<close>

definition startsWithStartCode :: "byte list \<Rightarrow> bool" where
  "startsWithStartCode bs \<longleftrightarrow>
     (4 \<le> len bs \<and> isStartCode4 bs 0) \<or> (3 \<le> len bs \<and> isStartCode3 bs 0)"

text \<open>
  A NAL header of type \<open>t\<close> at index \<open>i\<close>: the bytes \<open>00 00 01\<close> followed by a byte
  whose low five bits are \<open>t\<close>. (A 4-byte start code at \<open>i\<close> has this pattern at \<open>i + 1\<close>.)
\<close>

definition hasHeaderAt :: "byte list \<Rightarrow> int \<Rightarrow> byte \<Rightarrow> bool" where
  "hasHeaderAt bs i t \<longleftrightarrow>
     0 \<le> i \<and> i + 3 < len bs \<and> isStartCode3 bs i \<and> at bs (i + 3) AND 0x1F = t"

definition containsNALType :: "byte \<Rightarrow> byte list \<Rightarrow> bool" where
  "containsNALType t bs \<longleftrightarrow> (\<exists>i \<in> {0 ..< len bs}. hasHeaderAt bs i t)"

subsection \<open>Indexing\<close>

lemma len_nonneg: "0 \<le> len xs"
  by (simp add: len_def)

lemma len_append [simp]: "len (xs @ ys) = len xs + len ys"
  by (simp add: len_def)

lemma len_Nil [simp]: "len [] = 0"
  by (simp add: len_def)

lemma len_eq_0 [simp]: "len xs = 0 \<longleftrightarrow> xs = []"
  by (simp add: len_def)

lemma len_pos [simp]: "0 < len xs \<longleftrightarrow> xs \<noteq> []"
  by (simp add: len_def)

lemma at_append_left: "0 \<le> i \<Longrightarrow> i < len xs \<Longrightarrow> at (xs @ ys) i = at xs i"
proof -
  assume "0 \<le> i" "i < len xs"
  then have "nat i < length xs" by (simp add: len_def nat_less_iff)
  then show ?thesis by (simp add: at_def nth_append)
qed

lemma at_append_right: "len xs \<le> i \<Longrightarrow> at (xs @ ys) i = at ys (i - len xs)"
  by (simp add: at_def len_def nth_append nat_diff_distrib' nat_less_iff)

lemma len_slice: "0 \<le> lo \<Longrightarrow> lo \<le> hi \<Longrightarrow> hi \<le> len xs \<Longrightarrow> len (sliceOf xs lo hi) = hi - lo"
  by (simp add: sliceOf_def len_def)

lemma at_slice:
  "0 \<le> lo \<Longrightarrow> hi \<le> len xs \<Longrightarrow> 0 \<le> k \<Longrightarrow> k < hi - lo \<Longrightarrow>
     at (sliceOf xs lo hi) k = at xs (lo + k)"
  by (simp add: sliceOf_def at_def len_def nat_add_distrib)

lemma isStartCode3_append_left:
  "0 \<le> i \<Longrightarrow> i + 2 < len xs \<Longrightarrow> isStartCode3 (xs @ ys) i = isStartCode3 xs i"
  by (simp add: isStartCode3_def at_append_left)

lemma isStartCode4_append_left:
  "0 \<le> i \<Longrightarrow> i + 3 < len xs \<Longrightarrow> isStartCode4 (xs @ ys) i = isStartCode4 xs i"
  by (simp add: isStartCode4_def at_append_left)

lemma isStartCode3_append_right:
  "len xs \<le> i \<Longrightarrow> isStartCode3 (xs @ ys) i = isStartCode3 ys (i - len xs)"
  by (simp add: isStartCode3_def at_append_right algebra_simps)

lemma isStartCode3_slice:
  "0 \<le> lo \<Longrightarrow> hi \<le> len xs \<Longrightarrow> 0 \<le> k \<Longrightarrow> k + 2 < hi - lo \<Longrightarrow>
     isStartCode3 (sliceOf xs lo hi) k = isStartCode3 xs (lo + k)"
  by (simp add: isStartCode3_def at_slice algebra_simps)

lemma isStartCode4_slice:
  "0 \<le> lo \<Longrightarrow> hi \<le> len xs \<Longrightarrow> 0 \<le> k \<Longrightarrow> k + 3 < hi - lo \<Longrightarrow>
     isStartCode4 (sliceOf xs lo hi) k = isStartCode4 xs (lo + k)"
  by (simp add: isStartCode4_def at_slice algebra_simps)

lemma isStartCode4_imp3: "isStartCode4 bs i \<Longrightarrow> isStartCode3 bs (i + 1)"
  by (simp add: isStartCode4_def isStartCode3_def algebra_simps)

lemma isStartCode4_not3: "isStartCode4 bs i \<Longrightarrow> \<not> isStartCode3 bs i"
  by (simp add: isStartCode4_def isStartCode3_def)

lemma startsWithStartCode_append:
  "startsWithStartCode xs \<Longrightarrow> startsWithStartCode (xs @ ys)"
  unfolding startsWithStartCode_def
  using len_nonneg [of ys]
  by (auto simp: isStartCode4_append_left isStartCode3_append_left)

lemma startsWithStartCode_zeros:
  "startsWithStartCode xs \<Longrightarrow> 3 \<le> len xs \<and> at xs 0 = 0 \<and> at xs 1 = 0"
  unfolding startsWithStartCode_def by (auto simp: isStartCode4_def isStartCode3_def)

lemma startsWithStartCode_nonempty: "startsWithStartCode xs \<Longrightarrow> xs \<noteq> []"
  using startsWithStartCode_zeros [of xs] by auto


lemma hasHeaderAt_after4:
  assumes "0 \<le> i" "isStartCode4 cf i" "i + 4 < len cf" "at cf (i + 4) AND 0x1F = t"
  shows "hasHeaderAt cf (i + 1) t"
proof -
  have e: "i + 1 + 3 = i + 4" by simp
  from assms isStartCode4_imp3 [of cf i] show ?thesis
    unfolding hasHeaderAt_def e by simp
qed

lemma containsNALType_iff:
  "containsNALType t bs \<longleftrightarrow> (\<exists>i. hasHeaderAt bs i t)"
  unfolding containsNALType_def hasHeaderAt_def by auto

subsection \<open>The two searches for an IDR header\<close>

lemma hasIDR_scan_iff:
  "0 \<le> i \<Longrightarrow> hasIDR_scan cf i \<longleftrightarrow> (\<exists>j \<ge> i. hasHeaderAt cf j 5)"
proof (induction cf i rule: hasIDR_scan.induct)
  case (1 cf i)
  show ?case
  proof (cases "i < len cf - 3")
    case False
    then have "\<not> hasIDR_scan cf i" by (subst hasIDR_scan.simps) auto
    moreover from False have "\<not> (\<exists>j \<ge> i. hasHeaderAt cf j 5)"
      by (auto simp: hasHeaderAt_def)
    ultimately show ?thesis by simp
  next
    case True
    have here: "hasHeaderAt cf i 5 \<longleftrightarrow> isStartCode3 cf i \<and> at cf (i + 3) AND 0x1F = 5"
      using True "1.prems" by (auto simp: hasHeaderAt_def)
    have split: "(\<exists>j \<ge> i. hasHeaderAt cf j 5) \<longleftrightarrow>
        hasHeaderAt cf i 5 \<or> (\<exists>j \<ge> i + 1. hasHeaderAt cf j 5)"
    proof
      assume "\<exists>j \<ge> i. hasHeaderAt cf j 5"
      then obtain j where j: "i \<le> j" "hasHeaderAt cf j 5" by blast
      show "hasHeaderAt cf i 5 \<or> (\<exists>j \<ge> i + 1. hasHeaderAt cf j 5)"
      proof (cases "j = i")
        case True
        with j show ?thesis by simp
      next
        case False
        with j have "i + 1 \<le> j" by simp
        with j show ?thesis by blast
      qed
    next
      assume "hasHeaderAt cf i 5 \<or> (\<exists>j \<ge> i + 1. hasHeaderAt cf j 5)"
      then show "\<exists>j \<ge> i. hasHeaderAt cf j 5"
      proof
        assume "hasHeaderAt cf i 5"
        then show ?thesis by blast
      next
        assume "\<exists>j \<ge> i + 1. hasHeaderAt cf j 5"
        then obtain j where "i + 1 \<le> j" "hasHeaderAt cf j 5" by blast
        then have "i \<le> j \<and> hasHeaderAt cf j 5" by simp
        then show ?thesis by blast
      qed
    qed
    show ?thesis
    proof (cases "isStartCode4 cf i")
      case four: True
      then have no3: "\<not> hasHeaderAt cf i 5"
        by (simp add: hasHeaderAt_def isStartCode4_not3)
      show ?thesis
      proof (cases "i + 4 < len cf \<and> at cf (i + 4) AND 0x1F = 5")
        case hit: True
        with True four have "hasIDR_scan cf i" by (subst hasIDR_scan.simps) auto
        moreover from hit four "1.prems" have "hasHeaderAt cf (i + 1) 5"
          by (intro hasHeaderAt_after4) simp_all
        then have "\<exists>j \<ge> i. hasHeaderAt cf j 5"
          by (intro exI [of _ "i + 1"]) simp
        ultimately show ?thesis by simp
      next
        case miss: False
        with True four have "hasIDR_scan cf i = hasIDR_scan cf (i + 1)"
          by (subst hasIDR_scan.simps) auto
        also have "\<dots> \<longleftrightarrow> (\<exists>j \<ge> i + 1. hasHeaderAt cf j 5)"
          using "1.IH"(1) [OF True four miss] "1.prems" by simp
        finally show ?thesis using split no3 by simp
      qed
    next
      case nofour: False
      show ?thesis
      proof (cases "i + 2 < len cf \<and> isStartCode3 cf i")
        case three: True
        show ?thesis
        proof (cases "i + 3 < len cf \<and> at cf (i + 3) AND 0x1F = 5")
          case hit: True
          with True nofour three have "hasIDR_scan cf i"
            by (subst hasIDR_scan.simps) auto
          moreover from hit three here have "hasHeaderAt cf i 5" by simp
          ultimately show ?thesis using split by simp
        next
          case miss: False
          with True nofour three have "hasIDR_scan cf i = hasIDR_scan cf (i + 1)"
            by (subst hasIDR_scan.simps) auto
          also have "\<dots> \<longleftrightarrow> (\<exists>j \<ge> i + 1. hasHeaderAt cf j 5)"
            using "1.IH"(2) [OF True nofour three miss] "1.prems" by simp
          finally show ?thesis using split here miss True by auto
        qed
      next
        case nothree: False
        with True nofour have "hasIDR_scan cf i = hasIDR_scan cf (i + 1)"
          by (subst hasIDR_scan.simps) auto
        also have "\<dots> \<longleftrightarrow> (\<exists>j \<ge> i + 1. hasHeaderAt cf j 5)"
          using "1.IH"(3) [OF True nofour nothree] "1.prems" by simp
        finally show ?thesis using split here nothree True by auto
      qed
    qed
  qed
qed

lemma hasIDR_scan_contains: "hasIDR_scan cf 0 \<longleftrightarrow> containsNALType 5 cf"
  using hasIDR_scan_iff [of 0 cf]
  by (auto simp: containsNALType_iff hasHeaderAt_def)

lemma hasIDR_walk_sound:
  "0 \<le> i \<Longrightarrow> hasIDR_walk cf i \<Longrightarrow> containsNALType 5 cf"
proof (induction cf i rule: hasIDR_walk.induct)
  case (1 cf i)
  from "1.prems" have lt: "i < len cf"
    by (subst (asm) hasIDR_walk.simps) (auto split: if_splits)
  show ?case
  proof (cases "i + 4 \<le> len cf \<and> isStartCode4 cf i")
    case four: True
    show ?thesis
    proof (cases "(if i + 4 < len cf then at cf (i + 4) AND 0x1F else 0) = 5")
      case hit: True
      then have "i + 4 < len cf" "at cf (i + 4) AND 0x1F = 5" by (auto split: if_splits)
      with four "1.prems" have "hasHeaderAt cf (i + 1) 5"
        by (intro hasHeaderAt_after4) simp_all
      then show ?thesis by (auto simp: containsNALType_iff)
    next
      case miss: False
      with lt four "1.prems" have "hasIDR_walk cf (i + 4 + 1)"
        by (subst (asm) hasIDR_walk.simps) (auto split: if_splits)
      with "1.IH"(1) [OF lt four miss] "1.prems" show ?thesis by simp
    qed
  next
    case nofour: False
    show ?thesis
    proof (cases "i + 3 \<le> len cf \<and> isStartCode3 cf i")
      case three: True
      show ?thesis
      proof (cases "(if i + 3 < len cf then at cf (i + 3) AND 0x1F else 0) = 5")
        case hit: True
        then have "i + 3 < len cf" "at cf (i + 3) AND 0x1F = 5" by (auto split: if_splits)
        with three "1.prems" have "hasHeaderAt cf i 5"
          by (simp add: hasHeaderAt_def)
        then show ?thesis by (auto simp: containsNALType_iff)
      next
        case miss: False
        with lt nofour three "1.prems" have "hasIDR_walk cf (i + 3 + 1)"
          by (subst (asm) hasIDR_walk.simps) (auto split: if_splits)
        with "1.IH"(2) [OF lt nofour three miss] "1.prems" show ?thesis by simp
      qed
    next
      case nothree: False
      with lt nofour "1.prems" have "hasIDR_walk cf (i + 1)"
        by (subst (asm) hasIDR_walk.simps) (auto split: if_splits)
      with "1.IH"(3) [OF lt nofour nothree] "1.prems" show ?thesis by simp
    qed
  qed
qed

subsection \<open>The search for parameter sets\<close>

lemma noteParameterSet_cases:
  "noteParameterSet t found =
     (fst found \<or> t = 7, snd found \<or> (t \<noteq> 7 \<and> t = 8))"
  by (cases found) (auto simp: noteParameterSet_def)

lemma scanParameterSets_sound:
  "0 \<le> i \<Longrightarrow> scanParameterSets au i found = found' \<Longrightarrow>
     (fst found' \<longrightarrow> fst found \<or> containsNALType 7 au)
     \<and> (snd found' \<longrightarrow> snd found \<or> containsNALType 8 au)"
proof (induction au i found rule: scanParameterSets.induct)
  case (1 au i found)
  show ?case
  proof (cases "i < len au - 3")
    case False
    with "1.prems" have "found' = found" by (subst (asm) scanParameterSets.simps) auto
    then show ?thesis by simp
  next
    case True
    show ?thesis
    proof (cases "isStartCode4 au i")
      case four: True
      show ?thesis
      proof (cases "i + 4 < len au")
        case inr: True
        let ?t = "at au (i + 4) AND 0x1F"
        from True four inr "1.prems"
        have "scanParameterSets au (i + 1) (noteParameterSet ?t found) = found'"
          by (subst (asm) scanParameterSets.simps) auto
        from "1.IH"(1) [OF True four inr _ this] "1.prems"
        have ih: "(fst found' \<longrightarrow> fst (noteParameterSet ?t found) \<or> containsNALType 7 au)
           \<and> (snd found' \<longrightarrow> snd (noteParameterSet ?t found) \<or> containsNALType 8 au)" by simp
        have hdr: "hasHeaderAt au (i + 1) ?t"
          using "1.prems" four inr by (intro hasHeaderAt_after4) simp_all
        then have "?t = 7 \<Longrightarrow> containsNALType 7 au" "?t = 8 \<Longrightarrow> containsNALType 8 au"
          by (auto simp: containsNALType_iff)
        with ih show ?thesis by (auto simp: noteParameterSet_cases)
      next
        case out: False
        from True four out "1.prems" have "scanParameterSets au (i + 1) found = found'"
          by (subst (asm) scanParameterSets.simps) auto
        from "1.IH"(2) [OF True four out _ this] "1.prems" show ?thesis by simp
      qed
    next
      case nofour: False
      show ?thesis
      proof (cases "isStartCode3 au i")
        case three: True
        show ?thesis
        proof (cases "i + 3 < len au")
          case inr: True
          let ?t = "at au (i + 3) AND 0x1F"
          from True nofour three inr "1.prems"
          have "scanParameterSets au (i + 1) (noteParameterSet ?t found) = found'"
            by (subst (asm) scanParameterSets.simps) auto
          from "1.IH"(3) [OF True nofour three inr _ this] "1.prems"
          have ih: "(fst found' \<longrightarrow> fst (noteParameterSet ?t found) \<or> containsNALType 7 au)
             \<and> (snd found' \<longrightarrow> snd (noteParameterSet ?t found) \<or> containsNALType 8 au)" by simp
          have hdr: "hasHeaderAt au i ?t"
            using "1.prems" three inr by (simp add: hasHeaderAt_def)
          then have "?t = 7 \<Longrightarrow> containsNALType 7 au" "?t = 8 \<Longrightarrow> containsNALType 8 au"
            by (auto simp: containsNALType_iff)
          with ih show ?thesis by (auto simp: noteParameterSet_cases)
        next
          case out: False
          from True nofour three out "1.prems" have "scanParameterSets au (i + 1) found = found'"
            by (subst (asm) scanParameterSets.simps) auto
          from "1.IH"(4) [OF True nofour three out _ this] "1.prems" show ?thesis by simp
        qed
      next
        case nothree: False
        from True nofour nothree "1.prems" have "scanParameterSets au (i + 1) found = found'"
          by (subst (asm) scanParameterSets.simps) auto
        from "1.IH"(5) [OF True nofour nothree _ this] "1.prems" show ?thesis by simp
      qed
    qed
  qed
qed

lemma scanParameterSets_both:
  "scanParameterSets au 0 (False, False) = (True, True) \<Longrightarrow>
     containsNALType 7 au \<and> containsNALType 8 au"
  using scanParameterSets_sound [of 0 au "(False, False)" "(True, True)"] by simp

subsection \<open>Units and frames\<close>

text \<open>
  An extracted NAL unit: it begins with a start code, has at least two bytes behind it,
  and holds the pattern \<open>00 00 01\<close> nowhere but in that start code.
\<close>

definition leadLen :: "byte list \<Rightarrow> int" where
  "leadLen u = (if isStartCode4 u 0 then 4 else 3)"

definition nalUnitOK :: "byte list \<Rightarrow> bool" where
  "nalUnitOK u \<longleftrightarrow>
     startsWithStartCode u \<and> leadLen u + 1 < len u
     \<and> (\<forall>i. 0 \<le> i \<and> i + 2 < len u \<and> isStartCode3 u i \<longrightarrow> i = leadLen u - 3)"

text \<open>
  The current frame is empty or a sequence of units of which only the first can be an
  IDR unit.
\<close>

definition frameOK :: "byte list \<Rightarrow> bool" where
  "frameOK cf \<longleftrightarrow>
     cf = [] \<or> (\<exists>u us. cf = concat (u # us) \<and> nalUnitOK u
                 \<and> (\<forall>v \<in> set us. nalUnitOK v \<and> nalTypeOf v \<noteq> 5))"

lemma nalUnitOK_starts: "nalUnitOK u \<Longrightarrow> startsWithStartCode u"
  by (simp add: nalUnitOK_def)

lemma nalUnitOK_lead3: "nalUnitOK u \<Longrightarrow> isStartCode3 u (leadLen u - 3)"
  unfolding nalUnitOK_def startsWithStartCode_def leadLen_def
  using isStartCode4_imp3 [of u 0] by auto

lemma nalUnitOK_type:
  assumes "nalUnitOK u"
  shows "at u (leadLen u) AND 0x1F = nalTypeOf u"
proof (cases "isStartCode4 u 0")
  case True
  with assms show ?thesis by (simp add: nalUnitOK_def leadLen_def nalTypeOf_def)
next
  case False
  with assms have "isStartCode3 u 0" "4 \<le> len u"
    by (auto simp: nalUnitOK_def leadLen_def startsWithStartCode_def)
  with False show ?thesis by (simp add: leadLen_def nalTypeOf_def)
qed

lemma nalUnitOK_header:
  assumes "nalUnitOK u" and "hasHeaderAt u i t"
  shows "t = nalTypeOf u"
proof -
  from assms have "i = leadLen u - 3"
    by (auto simp: nalUnitOK_def hasHeaderAt_def)
  with assms(2) have "at u (leadLen u) AND 0x1F = t" by (simp add: hasHeaderAt_def)
  with nalUnitOK_type [OF assms(1)] show ?thesis by simp
qed

lemma at_append_behind: "0 \<le> k \<Longrightarrow> at (xs @ ys) (len xs + k) = at ys k"
  by (simp add: at_append_right)

lemma concat_units_starts:
  "\<forall>u \<in> set us. nalUnitOK u \<Longrightarrow> concat us \<noteq> [] \<Longrightarrow> startsWithStartCode (concat us)"
  by (cases us) (auto intro: startsWithStartCode_append nalUnitOK_starts)

lemma header_in_units:
  "\<forall>u \<in> set us. nalUnitOK u \<Longrightarrow> hasHeaderAt (concat us) i t \<Longrightarrow> \<exists>u \<in> set us. nalTypeOf u = t"
proof (induction us arbitrary: i)
  case Nil
  then show ?case by (auto simp: hasHeaderAt_def)
next
  case (Cons u us)
  let ?rest = "concat us"
  from Cons.prems have ok: "nalUnitOK u" and oks: "\<forall>v \<in> set us. nalUnitOK v" by simp_all
  from Cons.prems have h: "0 \<le> i" "i + 3 < len u + len ?rest" "isStartCode3 (u @ ?rest) i"
    "at (u @ ?rest) (i + 3) AND 0x1F = t"
    by (simp_all add: hasHeaderAt_def)
  consider (inside) "i + 2 < len u" | (straddle) "i < len u" "len u \<le> i + 2" | (behind) "len u \<le> i"
    by linarith
  then show ?case
  proof cases
    case inside
    with h have s: "isStartCode3 u i" by (simp add: isStartCode3_append_left)
    with ok inside h(1) have i: "i = leadLen u - 3" by (auto simp: nalUnitOK_def)
    with ok have "i + 3 < len u" by (simp add: nalUnitOK_def)
    with h have "at u (i + 3) AND 0x1F = t" by (simp add: at_append_left)
    with s h(1) \<open>i + 3 < len u\<close> have "hasHeaderAt u i t" by (simp add: hasHeaderAt_def)
    with nalUnitOK_header [OF ok] show ?thesis by auto
  next
    case straddle
    with h(2) have "0 < len ?rest" by linarith
    then have ne: "?rest \<noteq> []" using len_pos [of ?rest] by blast
    from concat_units_starts [OF oks ne] startsWithStartCode_zeros
    have z: "3 \<le> len ?rest" "at ?rest 0 = 0" "at ?rest 1 = 0" by auto
    from straddle have "i + 2 = len u \<or> i + 2 = len u + 1" by linarith
    then have "at (u @ ?rest) (i + 2) = 0"
    proof
      assume e: "i + 2 = len u"
      have "at (u @ ?rest) (len u + 0) = at ?rest 0" by (rule at_append_behind) simp
      with z show ?thesis unfolding e by simp
    next
      assume e: "i + 2 = len u + 1"
      have "at (u @ ?rest) (len u + 1) = at ?rest 1" by (rule at_append_behind) simp
      with z show ?thesis unfolding e by simp
    qed
    with h(3) show ?thesis by (simp add: isStartCode3_def)
  next
    case behind
    with h have "hasHeaderAt ?rest (i - len u) t"
      by (simp add: hasHeaderAt_def isStartCode3_append_right at_append_right algebra_simps)
    from Cons.IH [OF oks this] show ?thesis by auto
  qed
qed

lemma frameOK_starts: "frameOK cf \<Longrightarrow> cf \<noteq> [] \<Longrightarrow> startsWithStartCode cf"
  unfolding frameOK_def
  by (auto intro: startsWithStartCode_append nalUnitOK_starts)

lemma frameOK_single: "nalUnitOK u \<Longrightarrow> frameOK u"
  unfolding frameOK_def by (intro disjI2 exI [of _ u] exI [of _ "[]"]) simp

lemma frameOK_append:
  assumes "frameOK cf" "cf \<noteq> []" "nalUnitOK v" "nalTypeOf v \<noteq> 5"
  shows "frameOK (cf @ v)"
proof -
  from assms(1,2) obtain u us where cf: "cf = concat (u # us)" and u: "nalUnitOK u"
    and us: "\<forall>w \<in> set us. nalUnitOK w \<and> nalTypeOf w \<noteq> 5"
    by (auto simp: frameOK_def)
  have "cf @ v = concat (u # (us @ [v]))" using cf by simp
  moreover have "\<forall>w \<in> set (us @ [v]). nalUnitOK w \<and> nalTypeOf w \<noteq> 5"
    using us assms(3,4) by auto
  ultimately show ?thesis unfolding frameOK_def using u by blast
qed

lemma hasIDR_walk_first:
  assumes "nalUnitOK u" "nalTypeOf u = 5"
  shows "hasIDR_walk (u @ rest) 0"
proof -
  from assms(1) have big: "leadLen u + 1 < len u" by (simp add: nalUnitOK_def)
  have nn: "0 \<le> len rest" by (rule len_nonneg)
  show ?thesis
  proof (cases "isStartCode4 u 0")
    case True
    with big have l: "5 < len u" by (simp add: leadLen_def)
    with True have "isStartCode4 (u @ rest) 0" by (simp add: isStartCode4_append_left)
    moreover from l True assms have "at (u @ rest) 4 AND 0x1F = 5"
      by (simp add: at_append_left nalTypeOf_def)
    ultimately show ?thesis using l nn
      by (subst hasIDR_walk.simps) simp
  next
    case False
    with big have l: "4 < len u" by (simp add: leadLen_def)
    from False assms(1) have s3: "isStartCode3 u 0"
      by (auto simp: nalUnitOK_def startsWithStartCode_def)
    with l have "isStartCode3 (u @ rest) 0" by (simp add: isStartCode3_append_left)
    moreover from s3 have "\<not> isStartCode4 (u @ rest) 0"
      using l by (auto simp: isStartCode4_def isStartCode3_def at_append_left)
    moreover from l False s3 assms have "at (u @ rest) 3 AND 0x1F = 5"
      by (simp add: at_append_left nalTypeOf_def)
    ultimately show ?thesis using l nn
      by (subst hasIDR_walk.simps) simp
  qed
qed

lemma frameOK_walk:
  assumes "frameOK cf" "containsNALType 5 cf"
  shows "hasIDR_walk cf 0"
proof -
  from assms(2) obtain i where h: "hasHeaderAt cf i 5" by (auto simp: containsNALType_iff)
  then have "cf \<noteq> []" by (auto simp: hasHeaderAt_def)
  with assms(1) obtain u us where cf: "cf = concat (u # us)" and u: "nalUnitOK u"
    and us: "\<forall>w \<in> set us. nalUnitOK w \<and> nalTypeOf w \<noteq> 5"
    by (auto simp: frameOK_def)
  from u us have "\<forall>w \<in> set (u # us). nalUnitOK w" by simp
  from header_in_units [OF this] h cf obtain w where "w \<in> set (u # us)" "nalTypeOf w = 5"
    by blast
  with us have "nalTypeOf u = 5" by auto
  from hasIDR_walk_first [OF u this, of "concat us"] cf show ?thesis by simp
qed

subsection \<open>What the scan extracts\<close>

lemma locateStartCode_lead:
  assumes "locateStartCode b = (idx, n)" "0 \<le> idx"
  shows "(n = 4 \<and> isStartCode4 b idx \<or> n = 3 \<and> isStartCode3 b idx) \<and> idx + n \<le> len b"
proof (cases "0 \<le> findStartCode4 b")
  case True
  with assms have "idx = findStartCode4_from b 0" "n = 4"
    by (auto simp: locateStartCode_def findStartCode4_def)
  with True findStartCode4_from_hit [of b 0] findStartCode4_from_bounds [of 0 b]
  show ?thesis by (auto simp: findStartCode4_def)
next
  case False
  with assms have i3: "idx = findStartCode3 b" "n = 3" "0 \<le> findStartCode3 b"
    by (auto simp: locateStartCode_def split: if_splits)
  then have eq: "findStartCode3 b = findStartCode3_from b 1"
    by (simp add: findStartCode3_def split: if_splits)
  with i3 findStartCode3_from_hit [of 1 b] findStartCode3_from_bounds [of 1 b]
  show ?thesis by auto
qed

lemma findPrevStartCode_spec:
  "findPrevStartCode b i = (p, n) \<Longrightarrow> 0 \<le> p \<Longrightarrow>
     (n = 4 \<and> isStartCode4 b p \<or> n = 3 \<and> isStartCode3 b p) \<and> p + n \<le> i + 1
     \<and> (\<forall>j. 0 \<le> j \<and> p + n - 3 < j \<and> j + 2 \<le> i \<longrightarrow> \<not> isStartCode3 b j)"
proof (induction b i arbitrary: p n rule: findPrevStartCode.induct)
  case (1 b i)
  show ?case
  proof (cases "i \<ge> 0")
    case False
    with "1.prems" show ?thesis by (subst (asm) findPrevStartCode.simps) auto
  next
    case True
    show ?thesis
    proof (cases "i \<ge> 3 \<and> isStartCode4 b (i - 3)")
      case four: True
      with True "1.prems" have "p = i - 3" "n = 4"
        by (subst (asm) findPrevStartCode.simps, auto)+
      with four show ?thesis by auto
    next
      case nofour: False
      show ?thesis
      proof (cases "i \<ge> 2 \<and> isStartCode3 b (i - 2)")
        case three: True
        with True nofour "1.prems" have "p = i - 2" "n = 3"
          by (subst (asm) findPrevStartCode.simps, auto)+
        with three show ?thesis by auto
      next
        case nothree: False
        with True nofour "1.prems" have rec: "findPrevStartCode b (i - 1) = (p, n)"
          by (subst (asm) findPrevStartCode.simps) auto
        from "1.IH" [OF True nofour nothree rec "1.prems"(2)]
        have ih: "(n = 4 \<and> isStartCode4 b p \<or> n = 3 \<and> isStartCode3 b p)" "p + n \<le> i"
          "\<forall>j. 0 \<le> j \<and> p + n - 3 < j \<and> j + 2 \<le> i - 1 \<longrightarrow> \<not> isStartCode3 b j"
          by auto
        have "\<not> isStartCode3 b j" if j: "0 \<le> j" "p + n - 3 < j" "j + 2 \<le> i" for j
        proof (cases "j + 2 = i")
          case True
          then have "j = i - 2" by simp
          with j nothree show ?thesis by auto
        next
          case False
          with j have "j + 2 \<le> i - 1" by simp
          with ih(3) j show ?thesis by blast
        qed
        with ih(1,2) show ?thesis by auto
      qed
    qed
  qed
qed

lemma findNextStartCode_spec:
  "0 \<le> i \<Longrightarrow> i = 0 \<or> at b (i - 1) \<noteq> 0 \<or> \<not> isStartCode3 b i \<Longrightarrow>
   0 \<le> findNextStartCode b i \<Longrightarrow>
     (\<forall>j. i \<le> j \<and> j < findNextStartCode b i \<longrightarrow> \<not> isStartCode3 b j)"
proof (induction b i rule: findNextStartCode.induct)
  case (1 b i)
  show ?case
  proof (cases "i < len b - 3")
    case False
    then have "findNextStartCode b i = -1" by (subst findNextStartCode.simps) auto
    with "1.prems" show ?thesis by simp
  next
    case True
    show ?thesis
    proof (cases "i + 3 < len b \<and> isStartCode4 b i")
      case four: True
      with True have "findNextStartCode b i = i" by (subst findNextStartCode.simps) auto
      then show ?thesis by auto
    next
      case nofour: False
      show ?thesis
      proof (cases "i + 2 < len b \<and> isStartCode3 b i \<and> (i = 0 \<or> at b (i - 1) \<noteq> 0)")
        case three: True
        with True nofour have "findNextStartCode b i = i"
          by (subst findNextStartCode.simps) auto
        then show ?thesis by auto
      next
        case nothree: False
        with True nofour have eq: "findNextStartCode b i = findNextStartCode b (i + 1)"
          by (subst findNextStartCode.simps) auto
        from nothree True "1.prems"(1,2) have here: "\<not> isStartCode3 b i" by auto
        from nofour True have no4: "\<not> isStartCode4 b i" by auto
        have next_ok: "i + 1 = 0 \<or> at b (i + 1 - 1) \<noteq> 0 \<or> \<not> isStartCode3 b (i + 1)"
          using no4 by (auto simp: isStartCode4_def isStartCode3_def algebra_simps)
        from "1.IH" [OF True nofour nothree _ next_ok] "1.prems" eq
        have ih: "\<forall>j. i + 1 \<le> j \<and> j < findNextStartCode b i \<longrightarrow> \<not> isStartCode3 b j"
          by simp
        have "\<not> isStartCode3 b j" if j: "i \<le> j" "j < findNextStartCode b i" for j
        proof (cases "j = i")
          case True
          with here show ?thesis by simp
        next
          case False
          with j have "i + 1 \<le> j" by simp
          with ih j show ?thesis by blast
        qed
        then show ?thesis by blast
      qed
    qed
  qed
qed

lemma slice_unit:
  assumes lo: "0 \<le> lo" and hi: "hi \<le> len b" and big: "n + 1 < hi - lo"
    and lead: "n = 4 \<and> isStartCode4 b lo \<or> n = 3 \<and> isStartCode3 b lo"
    and clean: "\<forall>j. lo + n - 3 < j \<and> j + 2 < hi \<longrightarrow> \<not> isStartCode3 b j"
  shows "nalUnitOK (sliceOf b lo hi)"
proof -
  let ?u = "sliceOf b lo hi"
  from lead have n: "n = 3 \<or> n = 4" by auto
  with big have lohi: "lo \<le> hi" by auto
  have l: "len ?u = hi - lo" using lo lohi hi by (rule len_slice)
  have s4: "isStartCode4 ?u 0 = isStartCode4 b lo"
    using isStartCode4_slice [OF lo hi, of 0] n big by auto
  have s3: "isStartCode3 ?u k = isStartCode3 b (lo + k)" if "0 \<le> k" "k + 2 < hi - lo" for k
    using isStartCode3_slice [OF lo hi] that by simp
  have ll: "leadLen ?u = n"
  proof (cases "n = 4")
    case True
    with lead s4 show ?thesis by (simp add: leadLen_def)
  next
    case False
    with lead have "n = 3" "isStartCode3 b lo" by auto
    with isStartCode4_not3 [of b lo] s4 show ?thesis by (auto simp: leadLen_def)
  qed
  have st: "startsWithStartCode ?u"
  proof (cases "n = 4")
    case True
    with lead s4 l big show ?thesis by (simp add: startsWithStartCode_def)
  next
    case False
    with lead have "n = 3" "isStartCode3 b lo" by auto
    with s3 [of 0] l big show ?thesis by (simp add: startsWithStartCode_def)
  qed
  have uniq: "i = leadLen ?u - 3" if i: "0 \<le> i" "i + 2 < len ?u" "isStartCode3 ?u i" for i
  proof -
    from i l have b3: "isStartCode3 b (lo + i)" using s3 [of i] by simp
    from i l have "lo + i + 2 < hi" by simp
    with clean b3 have le: "lo + i \<le> lo + n - 3" by force
    show ?thesis
    proof (cases "n = 4")
      case True
      with le i have "i = 0 \<or> i = 1" by auto
      moreover have "i \<noteq> 0"
      proof
        assume "i = 0"
        with b3 have "isStartCode3 b lo" by simp
        with True lead isStartCode4_not3 [of b lo] show False by auto
      qed
      ultimately show ?thesis using ll True by simp
    next
      case False
      with n le i ll show ?thesis by auto
    qed
  qed
  from st ll l big uniq show ?thesis unfolding nalUnitOK_def by auto
qed

lemma slice_starts:
  assumes lo: "0 \<le> lo" and hi: "hi \<le> len b" and big: "n < hi - lo"
    and lead: "n = 4 \<and> isStartCode4 b lo \<or> n = 3 \<and> isStartCode3 b lo"
  shows "startsWithStartCode (sliceOf b lo hi)"
proof -
  let ?u = "sliceOf b lo hi"
  from lead have n: "n = 3 \<or> n = 4" by auto
  with big have lohi: "lo \<le> hi" by auto
  have l: "len ?u = hi - lo" using lo lohi hi by (rule len_slice)
  show ?thesis
  proof (cases "n = 4")
    case True
    with lead isStartCode4_slice [OF lo hi, of 0] l big show ?thesis
      by (simp add: startsWithStartCode_def)
  next
    case False
    with lead have "n = 3" "isStartCode3 b lo" by auto
    with isStartCode3_slice [OF lo hi, of 0] l big show ?thesis
      by (simp add: startsWithStartCode_def)
  qed
qed

subsection \<open>The invariant of \<^verbatim>\<open>readFrames\<close>\<close>

text \<open>
  The saved parameter sets are empty, or begin with a start code and hold an SPS header
  and a PPS header.
\<close>

definition cacheOK :: "byte list \<Rightarrow> bool" where
  "cacheOK c \<longleftrightarrow>
     c = [] \<or> (startsWithStartCode c \<and> containsNALType 7 c \<and> containsNALType 8 c)"

text \<open>
  What holds of every send: the flush sends the scan buffer as it is; every other send
  is queued, finalises a frame that begins with a start code, and sends it behind the
  saved parameter sets exactly when those are not empty and the frame has an IDR header.
\<close>

definition emissionOK :: "emission \<Rightarrow> bool" where
  "emissionOK e \<longleftrightarrow>
     (if em_site e = Flush then em_bytes e = em_frame e
      else em_queued e \<and> startsWithStartCode (em_frame e) \<and> cacheOK (em_cache e)
           \<and> em_bytes e =
               (if em_cache e \<noteq> [] \<and> containsNALType 5 (em_frame e)
                then em_cache e @ em_frame e else em_frame e))"

definition parserInv :: "RTSPVideoSource \<Rightarrow> bool" where
  "parserInv r \<longleftrightarrow>
     length (frameChan r) \<le> frameChanCap
     \<and> (accessUnit r = [] \<or> startsWithStartCode (accessUnit r))
     \<and> cacheOK (spsPps r)
     \<and> frameOK (currentFrame r)
     \<and> (\<forall>e \<in> set (sent r). emissionOK e)"

lemma parserInv_buffer [simp]: "parserInv (r\<lparr>buffer := b\<rparr>) = parserInv r"
  by (simp add: parserInv_def)

lemma parserInv_boundBuffer [simp]: "parserInv (boundBuffer r) = parserInv r"
  by (simp add: boundBuffer_def)

lemma parserInv_initial: "parserInv (started (NewRTSPVideoSource url fps counter))"
  by (simp add: parserInv_def started_def NewRTSPVideoSource_def cacheOK_def frameOK_def
      frameChanCap_def)

lemma frameOK_Nil [simp]: "frameOK []"
  by (simp add: frameOK_def)

lemma frame_bytes_start:
  "cacheOK c \<Longrightarrow> startsWithStartCode f \<Longrightarrow>
     startsWithStartCode (if c \<noteq> [] \<and> containsNALType 5 f then c @ f else f)"
  by (auto simp: cacheOK_def intro: startsWithStartCode_append)

lemma finalisedFrame_eq:
  assumes "parserInv r"
  shows "finalisedFrame r =
     (if spsPps r \<noteq> [] \<and> containsNALType 5 (currentFrame r)
      then spsPps r @ currentFrame r else currentFrame r)"
proof -
  from assms have f: "frameOK (currentFrame r)" by (simp add: parserInv_def)
  have "hasIDR_walk (currentFrame r) 0 \<longleftrightarrow> containsNALType 5 (currentFrame r)"
    using frameOK_walk [OF f] hasIDR_walk_sound [of 0 "currentFrame r"] by auto
  then show ?thesis by (auto simp: finalisedFrame_def Let_def)
qed

lemma audFrame_eq:
  "audFrame r =
     (if spsPps r \<noteq> [] \<and> containsNALType 5 (currentFrame r)
      then spsPps r @ currentFrame r else currentFrame r)"
  by (auto simp: audFrame_def hasIDR_scan_contains)

lemma sendCurrentFrame_inv:
  assumes inv: "parserInv r" and ne: "currentFrame r \<noteq> []"
  shows "\<exists>r'. sendCurrentFrame r = Inr r' \<and> parserInv r' \<and> currentFrame r' = []"
proof -
  let ?f = "finalisedFrame r"
  let ?ch = "(if length (frameChan r) < frameChanCap then frameChan r else tl (frameChan r)) @ [?f]"
  let ?e = "Emission Finalised ?f (spsPps r) (currentFrame r) True"
  let ?r' = "r\<lparr>frameQueueCounter := frameQueueCounter r + 1, frameChan := ?ch,
               sent := sent r @ [?e], currentFrame := []\<rparr>"
  from inv have cap: "length (frameChan r) \<le> frameChanCap" by (simp add: parserInv_def)
  have eq: "sendCurrentFrame r = Inr ?r'"
    by (simp add: sendCurrentFrame_def Let_def sendFinalised_result [OF cap] queueFrame_def)
  from inv ne have st: "startsWithStartCode (currentFrame r)"
    by (simp add: parserInv_def frameOK_starts)
  from inv have c: "cacheOK (spsPps r)" by (simp add: parserInv_def)
  have "emissionOK ?e"
    using st c finalisedFrame_eq [OF inv] by (simp add: emissionOK_def)
  with inv pushed_length [OF cap, of ?f] have "parserInv ?r'"
    by (simp add: parserInv_def)
  with eq show ?thesis by auto
qed

lemma sendCurrentFrame_keeps:
  "sendCurrentFrame r = Inr r' \<Longrightarrow> accessUnit r' = accessUnit r \<and> spsPps r' = spsPps r"
  by (auto simp: sendCurrentFrame_def Let_def queueFrame_def split: sum.splits)

lemma sendAfterAUD_inv:
  assumes inv: "parserInv r" and ne: "currentFrame r \<noteq> []"
  shows "\<exists>r'. sendAfterAUD r = Inr r' \<and> parserInv r'"
proof -
  let ?f = "audFrame r"
  let ?ch = "(if length (frameChan r) < frameChanCap then frameChan r else tl (frameChan r)) @ [?f]"
  let ?e = "Emission ViaAUD ?f (spsPps r) (currentFrame r) True"
  let ?r' = "r\<lparr>frameChan := ?ch, sent := sent r @ [?e],
               frameQueueCounter := frameQueueCounter r + 1, currentFrame := []\<rparr>"
  from inv have cap: "length (frameChan r) \<le> frameChanCap" by (simp add: parserInv_def)
  have eq: "sendAfterAUD r = Inr ?r'"
    by (simp add: sendAfterAUD_def Let_def sendReplacing_result [OF cap] queueFrame_def)
  from inv ne have st: "startsWithStartCode (currentFrame r)"
    by (simp add: parserInv_def frameOK_starts)
  from inv have c: "cacheOK (spsPps r)" by (simp add: parserInv_def)
  have "emissionOK ?e"
    using st c audFrame_eq [of r] by (simp add: emissionOK_def)
  with inv pushed_length [OF cap, of ?f] have "parserInv ?r'"
    by (simp add: parserInv_def)
  with eq show ?thesis by auto
qed

lemma sendFirstIDR_inv:
  assumes inv: "parserInv r"
  shows "\<exists>r'. sendFirstIDR r = Inr r' \<and> parserInv r'"
proof (cases "len (currentFrame r) > 0 \<and> len (spsPps r) > 0 \<and> frameQueueCounter r = 0
    \<and> hasIDR_scan (currentFrame r) 0 \<and> len (currentFrame r) > 100")
  case False
  then have "sendFirstIDR r = Inr r" by (auto simp: sendFirstIDR_def)
  with inv show ?thesis by simp
next
  case True
  let ?f = "spsPps r @ currentFrame r"
  let ?ch = "(if length (frameChan r) < frameChanCap then frameChan r else tl (frameChan r)) @ [?f]"
  let ?e = "Emission FirstIDR ?f (spsPps r) (currentFrame r) True"
  let ?r' = "r\<lparr>frameChan := ?ch, sent := sent r @ [?e],
               frameQueueCounter := frameQueueCounter r + 1, currentFrame := []\<rparr>"
  from inv have cap: "length (frameChan r) \<le> frameChanCap" by (simp add: parserInv_def)
  from True have eq: "sendFirstIDR r = Inr ?r'"
    by (simp add: sendFirstIDR_def Let_def sendReplacing_result [OF cap] queueFrame_def)
  from True have ne: "currentFrame r \<noteq> []" "spsPps r \<noteq> []"
    and idr: "containsNALType 5 (currentFrame r)"
    by (simp_all add: hasIDR_scan_contains)
  from inv ne have st: "startsWithStartCode (currentFrame r)"
    by (simp add: parserInv_def frameOK_starts)
  from inv have c: "cacheOK (spsPps r)" by (simp add: parserInv_def)
  have "emissionOK ?e"
    using st c ne idr by (simp add: emissionOK_def)
  with inv pushed_length [OF cap, of ?f] have "parserInv ?r'"
    by (simp add: parserInv_def)
  with eq show ?thesis by auto
qed

lemma saveParameterSets_inv:
  assumes "parserInv r"
  shows "parserInv (saveParameterSets r)"
proof (cases "scanParameterSets (accessUnit r) 0 (False, False) = (True, True)")
  case True
  from scanParameterSets_both [OF True]
  have both: "containsNALType 7 (accessUnit r)" "containsNALType 8 (accessUnit r)" by simp_all
  then have "accessUnit r \<noteq> []" by (auto simp: containsNALType_iff hasHeaderAt_def)
  with assms have "startsWithStartCode (accessUnit r)" by (auto simp: parserInv_def)
  with both have "cacheOK (accessUnit r)" by (simp add: cacheOK_def)
  with assms True show ?thesis by (simp add: saveParameterSets_def parserInv_def)
next
  case False
  then have "saveParameterSets r = r"
    by (auto simp: saveParameterSets_def split: prod.splits)
  with assms show ?thesis by simp
qed

lemma append_accessUnit_inv:
  assumes "parserInv r" "nalUnitOK u"
  shows "parserInv (r\<lparr>accessUnit := accessUnit r @ u\<rparr>)"
proof -
  have "startsWithStartCode (accessUnit r @ u)"
  proof (cases "accessUnit r = []")
    case True
    with assms(2) show ?thesis by (simp add: nalUnitOK_starts)
  next
    case False
    with assms(1) show ?thesis by (auto simp: parserInv_def intro: startsWithStartCode_append)
  qed
  with assms(1) show ?thesis by (simp add: parserInv_def)
qed

lemma processNAL_inv:
  assumes inv: "parserInv r" and u: "nalUnitOK u"
  shows "\<exists>r'. processNAL u r = Inr r' \<and> parserInv r'"
proof -
  let ?t = "nalTypeOf u"
  let ?send = "(?t = 9 \<or> ?t = 5 \<or> ?t = 1) \<and> currentFrame r \<noteq> []"
  obtain r1 where r1: "(if ?send then sendCurrentFrame r else Inr r) = Inr r1"
    and inv1: "parserInv r1" and cf1: "?send \<longrightarrow> currentFrame r1 = []"
    and cf1': "\<not> ?send \<longrightarrow> r1 = r"
    using sendCurrentFrame_inv [OF inv] inv by (cases ?send) auto
  have unfold: "processNAL u r =
      (if ?t = 9 then (if currentFrame r1 \<noteq> [] \<and> \<not> ?send then sendAfterAUD r1 else Inr r1)
       else if ?t = 5 \<or> ?t = 1 then Inr (r1\<lparr>currentFrame := currentFrame r1 @ u\<rparr>)
       else if ?t = 7 \<or> ?t = 8 then Inr (saveParameterSets (r1\<lparr>accessUnit := accessUnit r1 @ u\<rparr>))
       else if currentFrame r1 \<noteq> [] then Inr (r1\<lparr>currentFrame := currentFrame r1 @ u\<rparr>)
       else Inr (r1\<lparr>accessUnit := accessUnit r1 @ u\<rparr>))"
    using r1 unfolding processNAL_def Let_def
    by (auto split: if_splits)
  consider (aud) "?t = 9" | (pic) "?t \<noteq> 9" "?t = 5 \<or> ?t = 1"
    | (ps) "?t \<noteq> 9" "?t \<noteq> 5" "?t \<noteq> 1" "?t = 7 \<or> ?t = 8"
    | (other) "?t \<noteq> 9" "?t \<noteq> 5" "?t \<noteq> 1" "?t \<noteq> 7" "?t \<noteq> 8"
    by blast
  then show ?thesis
  proof cases
    case aud
    show ?thesis
    proof (cases "currentFrame r1 \<noteq> [] \<and> \<not> ?send")
      case True
      with sendAfterAUD_inv [OF inv1] unfold aud show ?thesis by auto
    next
      case False
      with unfold aud inv1 show ?thesis by auto
    qed
  next
    case pic
    have "currentFrame r1 = []"
    proof (cases "currentFrame r = []")
      case True
      with cf1' show ?thesis by auto
    next
      case False
      with pic cf1 show ?thesis by auto
    qed
    then have "parserInv (r1\<lparr>currentFrame := currentFrame r1 @ u\<rparr>)"
      using inv1 frameOK_single [OF u] by (simp add: parserInv_def)
    with unfold pic show ?thesis by auto
  next
    case ps
    from saveParameterSets_inv [OF append_accessUnit_inv [OF inv1 u]] unfold ps
    show ?thesis by auto
  next
    case other
    show ?thesis
    proof (cases "currentFrame r1 \<noteq> []")
      case True
      with inv1 have "frameOK (currentFrame r1 @ u)"
        using frameOK_append [of "currentFrame r1" u] u other by (simp add: parserInv_def)
      with inv1 have "parserInv (r1\<lparr>currentFrame := currentFrame r1 @ u\<rparr>)"
        by (simp add: parserInv_def)
      with unfold other True show ?thesis by auto
    next
      case False
      with append_accessUnit_inv [OF inv1 u] unfold other show ?thesis by auto
    qed
  qed
qed

lemma extractNAL_inv:
  assumes inv: "parserInv r" and lo: "0 \<le> nalStart" and hi: "nalEnd \<le> len (buffer r)"
    and unit: "n + 1 < nalEnd - nalStart \<Longrightarrow> nalUnitOK (sliceOf (buffer r) nalStart nalEnd)"
    and n: "0 \<le> n"
  shows "case extractNAL r hasPrev idx nalStart nalEnd n of
           Continue r' \<Rightarrow> parserInv r'
         | Break r' \<Rightarrow> parserInv r'
         | Fail e r' \<Rightarrow> e = SliceOutOfRange \<and> parserInv r'"
proof (cases "nalEnd > nalStart \<and> nalEnd - nalStart > n")
  case False
  with inv show ?thesis by (auto simp: extractNAL_def)
next
  case True
  let ?u = "sliceOf (buffer r) nalStart nalEnd"
  from True lo hi have l: "len ?u = nalEnd - nalStart" by (simp add: len_slice)
  show ?thesis
  proof (cases "len ?u > n + 1")
    case big: True
    with l unit have "nalUnitOK ?u" by simp
    from processNAL_inv [OF inv this] obtain r1 where "processNAL ?u r = Inr r1" "parserInv r1"
      by blast
    with True big show ?thesis by (simp add: extractNAL_def Let_def)
  next
    case False
    with True inv show ?thesis by (simp add: extractNAL_def Let_def)
  qed
qed

lemma lead_no_inner_code:
  assumes "n = 4 \<and> isStartCode4 b idx \<or> n = 3 \<and> isStartCode3 b idx"
  shows "\<not> isStartCode3 b (idx + n - 2) \<and> \<not> isStartCode3 b (idx + n - 1)
         \<and> at b (idx + n - 1) \<noteq> 0"
  using assms by (auto simp: isStartCode4_def isStartCode3_def algebra_simps)

lemma scanStep_inv:
  assumes inv: "parserInv r"
  shows "case scanStep r of
           Continue r' \<Rightarrow> parserInv r'
         | Break r' \<Rightarrow> parserInv r'
         | Fail e r' \<Rightarrow> e = SliceOutOfRange \<and> parserInv r'"
proof -
  let ?b = "buffer r"
  obtain idx n where loc: "locateStartCode ?b = (idx, n)" by (cases "locateStartCode ?b")
  show ?thesis
  proof (cases "0 \<le> idx")
    case False
    from sendFirstIDR_inv [OF inv] obtain r1 where "sendFirstIDR r = Inr r1" "parserInv r1"
      by blast
    with False loc show ?thesis by (simp add: scanStep_def)
  next
    case True
    from locateStartCode_lead [OF loc True]
    have lead: "n = 4 \<and> isStartCode4 ?b idx \<or> n = 3 \<and> isStartCode3 ?b idx"
      and fits: "idx + n \<le> len ?b" by simp_all
    then have n: "n = 3 \<or> n = 4" by auto
    obtain p pn where prev: "findPrevStartCode ?b (idx - 1) = (p, pn)"
      by (cases "findPrevStartCode ?b (idx - 1)")
    show ?thesis
    proof (cases "0 \<le> p")
      case hasPrev: True
      from findPrevStartCode_spec [OF prev hasPrev]
      have plead: "pn = 4 \<and> isStartCode4 ?b p \<or> pn = 3 \<and> isStartCode3 ?b p"
        and pfits: "p + pn \<le> idx"
        and pclean: "\<forall>j. 0 \<le> j \<and> p + pn - 3 < j \<and> j + 2 \<le> idx - 1 \<longrightarrow> \<not> isStartCode3 ?b j"
        by simp_all
      from plead have pn: "pn = 3 \<or> pn = 4" by auto
      have hi: "idx \<le> len ?b" using fits n by auto
      have clean: "\<forall>j. p + pn - 3 < j \<and> j + 2 < idx \<longrightarrow> \<not> isStartCode3 ?b j"
        using pclean hasPrev pn by auto
      have unit: "pn + 1 < idx - p \<Longrightarrow> nalUnitOK (sliceOf ?b p idx)"
        using slice_unit [OF hasPrev hi _ plead clean] by simp
      from extractNAL_inv [OF inv hasPrev hi unit, where hasPrev = True and idx = idx] pn
      have "case extractNAL r True idx p idx pn of
           Continue r' \<Rightarrow> parserInv r'
         | Break r' \<Rightarrow> parserInv r'
         | Fail e r' \<Rightarrow> e = SliceOutOfRange \<and> parserInv r'" by auto
      with loc True prev hasPrev show ?thesis by (simp add: scanStep_def)
    next
      case noPrev: False
      let ?m = "findNextStartCode ?b (idx + n)"
      show ?thesis
      proof (cases "0 \<le> ?m")
        case False
        with loc True prev noPrev inv show ?thesis by (simp add: scanStep_def Let_def)
      next
        case found: True
        from True n have start: "0 \<le> idx + n" by auto
        from lead_no_inner_code [OF lead]
        have inner: "\<not> isStartCode3 ?b (idx + n - 2)" "\<not> isStartCode3 ?b (idx + n - 1)"
          and last: "at ?b (idx + n - 1) \<noteq> 0" by simp_all
        from findNextStartCode_bounds [OF found start]
        have mlo: "idx + n \<le> ?m" and mhi: "?m < len ?b - 3" by simp_all
        from findNextStartCode_spec [OF start _ found] last
        have after: "\<forall>j. idx + n \<le> j \<and> j < ?m \<longrightarrow> \<not> isStartCode3 ?b j" by simp
        have clean: "\<forall>j. idx + n - 3 < j \<and> j + 2 < ?m \<longrightarrow> \<not> isStartCode3 ?b j"
        proof (intro allI impI)
          fix j assume j: "idx + n - 3 < j \<and> j + 2 < ?m"
          consider "j = idx + n - 2" | "j = idx + n - 1" | "idx + n \<le> j" using j by linarith
          then show "\<not> isStartCode3 ?b j"
          proof cases
            case 1 with inner show ?thesis by simp
          next
            case 2 with inner show ?thesis by simp
          next
            case 3 with after j show ?thesis by auto
          qed
        qed
        have hi: "?m \<le> len ?b" using mhi by simp
        have unit: "n + 1 < ?m - idx \<Longrightarrow> nalUnitOK (sliceOf ?b idx ?m)"
          using slice_unit [OF True hi _ lead clean] by simp
        from extractNAL_inv [OF inv True hi unit, where hasPrev = False and idx = idx] n
        have "case extractNAL r False idx idx ?m n of
           Continue r' \<Rightarrow> parserInv r'
         | Break r' \<Rightarrow> parserInv r'
         | Fail e r' \<Rightarrow> e = SliceOutOfRange \<and> parserInv r'" by auto
        with loc True prev noPrev found show ?thesis by (simp add: scanStep_def Let_def)
      qed
    qed
  qed
qed

lemma scanLoop_inv:
  "parserInv r \<Longrightarrow>
     (case scanLoop r of
        Inr r' \<Rightarrow> parserInv r'
      | Inl (e, r') \<Rightarrow> e = SliceOutOfRange \<and> parserInv r')"
proof (induction r rule: scanLoop.induct)
  case (1 r)
  from scanStep_inv [OF "1.prems"] show ?case
  proof (cases "scanStep r")
    case (Continue r')
    with scanStep_inv [OF "1.prems"] have "parserInv r'" by simp
    from "1.IH" [OF Continue this] Continue show ?thesis
      by (subst scanLoop.simps) simp
  next
    case (Break r')
    with scanStep_inv [OF "1.prems"] show ?thesis
      by (subst scanLoop.simps) simp
  next
    case (Fail e r')
    with scanStep_inv [OF "1.prems"] show ?thesis
      by (subst scanLoop.simps) simp
  qed
qed

lemma readFailed_inv: "parserInv r \<Longrightarrow> parserInv (readFailed msg r)"
  by (auto simp: readFailed_def Let_def parserInv_def emissionOK_def sendFrameSafely_result
      frameChanCap_def)

lemma Close_inv: "parserInv r \<Longrightarrow> parserInv (snd (snd (Close r)))"
  by (auto simp: Close_def Let_def parserInv_def split: option.splits)

lemma frameTaken_inv:
  "parserInv r \<Longrightarrow>
     parserInv (case tryRecv (frameChan r) of
                  Some (taken, rest) \<Rightarrow> r\<lparr>frameChan := rest\<rparr>
                | None \<Rightarrow> r)"
  by (cases "frameChan r") (auto simp: tryRecv_def parserInv_def)

text \<open>
  However the reads go, the invariant holds of the source that \<^verbatim>\<open>readFrames\<close> leaves
  behind, and the only fault that can stop it is the slice out of range.
\<close>

lemma readFrames_inv:
  "parserInv r \<Longrightarrow>
     parserInv (sourceOf (readFrames r evs))
     \<and> (\<forall>r'. readFrames r evs \<noteq> Crashed SendBlocked r')"
proof (induction r evs rule: readFrames.induct)
  case (1 r)
  then show ?case by simp
next
  case (2 r evs)
  from "2.IH" [OF Close_inv [OF "2.prems"]] show ?case by simp
next
  case (3 r evs)
  from "3.IH" [OF frameTaken_inv [OF "3.prems"]] show ?case by simp
next
  case (4 r evs)
  then show ?case by (simp add: readFailed_inv)
next
  case (5 r err evs)
  then show ?case by (simp add: readFailed_inv)
next
  case (6 r chunk evs)
  let ?r1 = "r\<lparr>buffer := buffer r @ chunk\<rparr>"
  have inv1: "parserInv ?r1" using "6.prems" by simp
  show ?case
  proof (cases "closed r")
    case True
    with "6.prems" show ?thesis by simp
  next
    case isopen: False
    show ?thesis
    proof (cases "length chunk = 0")
      case True
      with isopen "6.IH"(1) "6.prems" show ?thesis by simp
    next
      case data: False
      show ?thesis
      proof (cases "len (buffer ?r1) < 20")
        case True
        with isopen data "6.IH"(2) [OF isopen data refl True inv1] show ?thesis
          by (simp add: Let_def)
      next
        case enough: False
        show ?thesis
        proof (cases "scanLoop ?r1")
          case (Inl stop)
          obtain e r2 where stop: "stop = (e, r2)" by (cases stop)
          with Inl scanLoop_inv [OF inv1] have "e = SliceOutOfRange" "parserInv r2" by simp_all
          with isopen data enough Inl stop show ?thesis by (simp add: Let_def)
        next
          case (Inr r2)
          with scanLoop_inv [OF inv1] have inv2: "parserInv r2" by simp
          from "6.IH"(3) [OF isopen data refl enough Inr inv2] isopen data enough Inr
          show ?thesis by (simp add: Let_def)
        qed
      qed
    qed
  qed
qed

subsection \<open>Start codes at the head of what is sent\<close>

theorem flush_without_start_code_counterexample:
  "sent (sourceOf (readFrames (started (NewRTSPVideoSource ''rtsp://cam/1'' 15 0))
          [Read [0x41, 0x42, 0x43], ReadEOF]))
     = [Emission Flush [0x41, 0x42, 0x43] [] [0x41, 0x42, 0x43] True]
   \<and> frameChan (sourceOf (readFrames (started (NewRTSPVideoSource ''rtsp://cam/1'' 15 0))
          [Read [0x41, 0x42, 0x43], ReadEOF]))
     = [[0x41, 0x42, 0x43]]
   \<and> \<not> startsWithStartCode [0x41, 0x42, 0x43]"
  by code_simp

text \<open>
  C2. Every frame that the scan loop finalises and sends (at any of its three
  places, over any sequence of reads) begins with an Annex-B start code. The flush after
  a failed read sends the bytes left in the scan buffer as they are.
\<close>

theorem finalised_frames_start_with_start_code:
  "\<forall>e \<in> set (sent (sourceOf (readFrames (started (NewRTSPVideoSource url fps counter)) evs))).
     (em_site e \<noteq> Flush \<longrightarrow> startsWithStartCode (em_bytes e))
     \<and> (em_site e = Flush \<longrightarrow> em_bytes e = em_frame e)"
proof
  fix e
  assume e: "e \<in> set (sent (sourceOf (readFrames (started (NewRTSPVideoSource url fps counter)) evs)))"
  from readFrames_inv [OF parserInv_initial, of url fps counter evs] e
  have ok: "emissionOK e" by (simp add: parserInv_def)
  show "(em_site e \<noteq> Flush \<longrightarrow> startsWithStartCode (em_bytes e))
     \<and> (em_site e = Flush \<longrightarrow> em_bytes e = em_frame e)"
  proof (cases "em_site e = Flush")
    case True
    with ok show ?thesis by (simp add: emissionOK_def)
  next
    case False
    with ok have "cacheOK (em_cache e)" "startsWithStartCode (em_frame e)"
      and b: "em_bytes e = (if em_cache e \<noteq> [] \<and> containsNALType 5 (em_frame e)
                then em_cache e @ em_frame e else em_frame e)"
      by (simp_all add: emissionOK_def)
    with frame_bytes_start [of "em_cache e" "em_frame e"] False show ?thesis by simp
  qed
qed

theorem finalised_frames_start_with_start_code_witness:
  "Emission Finalised [0,0,0,1,0x67,0x42, 0,0,0,1,0x68,0xCE, 0,0,0,1,0x65,0x88]
       [0,0,0,1,0x67,0x42, 0,0,0,1,0x68,0xCE] [0,0,0,1,0x65,0x88] True
     \<in> set (sent (sourceOf (readFrames (started (NewRTSPVideoSource ''rtsp://cam/1'' 15 0))
          [Read [0,0,0,1,0x67,0x42, 0,0,0,1,0x68,0xCE, 0,0,0,1,0x65,0x88, 0,0,0,1,0x41,0x9A,
                 0,0,0,1,0x41,0x9B]])))
   \<and> startsWithStartCode [0,0,0,1,0x67,0x42, 0,0,0,1,0x68,0xCE, 0,0,0,1,0x65,0x88]"
proof -
  let ?evs = "[Read [0,0,0,1,0x67,0x42, 0,0,0,1,0x68,0xCE, 0,0,0,1,0x65,0x88, 0,0,0,1,0x41,0x9A,
                 0,0,0,1,0x41,0x9B]]"
  let ?e = "Emission Finalised [0,0,0,1,0x67,0x42, 0,0,0,1,0x68,0xCE, 0,0,0,1,0x65,0x88]
       [0,0,0,1,0x67,0x42, 0,0,0,1,0x68,0xCE] [0,0,0,1,0x65,0x88] True"
  have run: "?e \<in> set (sent (sourceOf (readFrames (started (NewRTSPVideoSource ''rtsp://cam/1'' 15 0)) ?evs)))"
    by code_simp
  from finalised_frames_start_with_start_code [of "''rtsp://cam/1''" 15 0 ?evs] run
  have "em_site ?e \<noteq> Flush \<longrightarrow> startsWithStartCode (em_bytes ?e)" by blast
  then have "startsWithStartCode [0,0,0,1,0x67,0x42, 0,0,0,1,0x68,0xCE, 0,0,0,1,0x65,0x88]"
    by simp
  with run show ?thesis by blast
qed

subsection \<open>Parameter sets in front of IDR frames\<close>

theorem idr_without_sps_first_counterexample:
  "sent (sourceOf (readFrames (started (NewRTSPVideoSource ''rtsp://cam/1'' 15 0))
          [Read [0,0,0,1,0x68,0xCE, 0,0,0,1,0x67,0x42, 0,0,0,1,0x65,0x88, 0,0,0,1,0x41,0x9A,
                 0,0,0,1,0x41,0x9B]]))
     = [Emission Finalised [0,0,0,1,0x68,0xCE, 0,0,0,1,0x67,0x42, 0,0,0,1,0x65,0x88]
          [0,0,0,1,0x68,0xCE, 0,0,0,1,0x67,0x42] [0,0,0,1,0x65,0x88] True]
   \<and> nalTypeOf [0,0,0,1,0x68,0xCE, 0,0,0,1,0x67,0x42, 0,0,0,1,0x65,0x88] = 8
   \<and> sent (sourceOf (readFrames (started (NewRTSPVideoSource ''rtsp://cam/1'' 15 0))
          [Read [0,0,0,1,0x67,0x42,0xC0,0x1F, 0,0,0,1,0x68,0xCE,0x3C,0x80,
                 0,0,0,1,0x65,0x88,0x84,0x21], ReadEOF]))
     = [Emission Flush [0,0,0,1,0x65,0x88,0x84,0x21]
          [0,0,0,1,0x67,0x42,0xC0,0x1F, 0,0,0,1,0x68,0xCE,0x3C,0x80]
          [0,0,0,1,0x65,0x88,0x84,0x21] True]
   \<and> nalTypeOf [0,0,0,1,0x65,0x88,0x84,0x21] = 5"
  by code_simp

text \<open>
  C1. For every frame that the scan loop finalises and sends: if the saved
  parameter sets were not empty at that moment and the frame holds an IDR header, the
  bytes sent are the saved parameter sets followed by the frame. The saved parameter sets
  are a copy of the accumulator: they begin with a start code and hold an SPS header and
  a PPS header, in the order in which the units arrived.
\<close>

theorem idr_frames_carry_saved_parameter_sets:
  "\<forall>e \<in> set (sent (sourceOf (readFrames (started (NewRTSPVideoSource url fps counter)) evs))).
     em_site e \<noteq> Flush \<and> em_cache e \<noteq> [] \<and> containsNALType 5 (em_frame e) \<longrightarrow>
       em_bytes e = em_cache e @ em_frame e
       \<and> startsWithStartCode (em_cache e)
       \<and> containsNALType 7 (em_cache e) \<and> containsNALType 8 (em_cache e)"
proof (intro ballI impI)
  fix e
  assume e: "e \<in> set (sent (sourceOf (readFrames (started (NewRTSPVideoSource url fps counter)) evs)))"
    and h: "em_site e \<noteq> Flush \<and> em_cache e \<noteq> [] \<and> containsNALType 5 (em_frame e)"
  from readFrames_inv [OF parserInv_initial, of url fps counter evs] e
  have "emissionOK e" by (simp add: parserInv_def)
  with h show "em_bytes e = em_cache e @ em_frame e
       \<and> startsWithStartCode (em_cache e)
       \<and> containsNALType 7 (em_cache e) \<and> containsNALType 8 (em_cache e)"
    by (simp add: emissionOK_def cacheOK_def)
qed

theorem idr_frames_carry_saved_parameter_sets_witness:
  "Emission Finalised [0,0,0,1,0x67,0x42, 0,0,0,1,0x68,0xCE, 0,0,0,1,0x65,0x88]
       [0,0,0,1,0x67,0x42, 0,0,0,1,0x68,0xCE] [0,0,0,1,0x65,0x88] True
     \<in> set (sent (sourceOf (readFrames (started (NewRTSPVideoSource ''rtsp://cam/1'' 15 0))
          [Read [0,0,0,1,0x67,0x42, 0,0,0,1,0x68,0xCE, 0,0,0,1,0x65,0x88, 0,0,0,1,0x41,0x9A,
                 0,0,0,1,0x41,0x9B]])))
   \<and> containsNALType 5 [0,0,0,1,0x65,0x88]
   \<and> containsNALType 7 [0,0,0,1,0x67,0x42, 0,0,0,1,0x68,0xCE]
   \<and> containsNALType 8 [0,0,0,1,0x67,0x42, 0,0,0,1,0x68,0xCE]"
proof -
  let ?evs = "[Read [0,0,0,1,0x67,0x42, 0,0,0,1,0x68,0xCE, 0,0,0,1,0x65,0x88, 0,0,0,1,0x41,0x9A,
                 0,0,0,1,0x41,0x9B]]"
  let ?e = "Emission Finalised [0,0,0,1,0x67,0x42, 0,0,0,1,0x68,0xCE, 0,0,0,1,0x65,0x88]
       [0,0,0,1,0x67,0x42, 0,0,0,1,0x68,0xCE] [0,0,0,1,0x65,0x88] True"
  have run: "?e \<in> set (sent (sourceOf (readFrames (started (NewRTSPVideoSource ''rtsp://cam/1'' 15 0)) ?evs)))"
    by code_simp
  have idr: "containsNALType 5 [0,0,0,1,0x65,0x88]"
    by code_simp
  from idr_frames_carry_saved_parameter_sets [of "''rtsp://cam/1''" 15 0 ?evs] run
  have "em_site ?e \<noteq> Flush \<and> em_cache ?e \<noteq> [] \<and> containsNALType 5 (em_frame ?e) \<longrightarrow>
       em_bytes ?e = em_cache ?e @ em_frame ?e
       \<and> startsWithStartCode (em_cache ?e)
       \<and> containsNALType 7 (em_cache ?e) \<and> containsNALType 8 (em_cache ?e)" by blast
  with idr have "containsNALType 7 [0,0,0,1,0x67,0x42, 0,0,0,1,0x68,0xCE]
     \<and> containsNALType 8 [0,0,0,1,0x67,0x42, 0,0,0,1,0x68,0xCE]" by simp
  with run idr show ?thesis by blast
qed

subsection \<open>The frame channel during a run\<close>

theorem flush_dropped_when_full_counterexample:
  "frameChan (sourceOf (readFrames (started (NewRTSPVideoSource ''rtsp://cam/1'' 15 0))
          [Read [0,0,0,1,0x67,0x42, 0,0,0,1,0x68,0xCE, 0,0,0,1,0x65,0x88, 0,0,0,1,0x41,0x9A,
                 0,0,0,1,0x41,0x9B, 0,0,0,1,0x41,0x9C, 0,0,0,1,0x41,0x9D, 0,0,0,1,0x41,0x9E,
                 0,0,0,1,0x41,0x9F]]))
     = [[0,0,0,1,0x67,0x42, 0,0,0,1,0x68,0xCE, 0,0,0,1,0x65,0x88],
        [0,0,0,1,0x41,0x9A], [0,0,0,1,0x41,0x9B], [0,0,0,1,0x41,0x9C], [0,0,0,1,0x41,0x9D]]
   \<and> frameChan (sourceOf (readFrames (started (NewRTSPVideoSource ''rtsp://cam/1'' 15 0))
          [Read [0,0,0,1,0x67,0x42, 0,0,0,1,0x68,0xCE, 0,0,0,1,0x65,0x88, 0,0,0,1,0x41,0x9A,
                 0,0,0,1,0x41,0x9B, 0,0,0,1,0x41,0x9C, 0,0,0,1,0x41,0x9D, 0,0,0,1,0x41,0x9E,
                 0,0,0,1,0x41,0x9F], ReadEOF]))
     = [[0,0,0,1,0x67,0x42, 0,0,0,1,0x68,0xCE, 0,0,0,1,0x65,0x88],
        [0,0,0,1,0x41,0x9A], [0,0,0,1,0x41,0x9B], [0,0,0,1,0x41,0x9C], [0,0,0,1,0x41,0x9D]]
   \<and> last (sent (sourceOf (readFrames (started (NewRTSPVideoSource ''rtsp://cam/1'' 15 0))
          [Read [0,0,0,1,0x67,0x42, 0,0,0,1,0x68,0xCE, 0,0,0,1,0x65,0x88, 0,0,0,1,0x41,0x9A,
                 0,0,0,1,0x41,0x9B, 0,0,0,1,0x41,0x9C, 0,0,0,1,0x41,0x9D, 0,0,0,1,0x41,0x9E,
                 0,0,0,1,0x41,0x9F], ReadEOF])))
     = Emission Flush [0,0,0,1,0x41,0x9F] [0,0,0,1,0x67,0x42, 0,0,0,1,0x68,0xCE]
         [0,0,0,1,0x41,0x9F] False"
  by code_simp

text \<open>
  C6. The frame channel has capacity 5. Where the scan loop sends a finalised
  frame and the channel is full, the oldest frame is taken out and the new frame is
  queued: the new frame is always queued, as the last element, and the channel never
  holds more than 5 frames; no such send ever blocks. The flush after a failed read is a
  single send without blocking: on a full channel the flushed bytes are discarded and
  the channel is left as it was.
\<close>

theorem frame_channel_newest_wins:
  "frameChanCap = 5
   \<and> (length ch \<le> frameChanCap \<longrightarrow>
        sendFinalised ch f = Inr ((if length ch < frameChanCap then ch else tl ch) @ [f], True)
        \<and> sendReplacing ch f = Inr ((if length ch < frameChanCap then ch else tl ch) @ [f], True)
        \<and> length ((if length ch < frameChanCap then ch else tl ch) @ [f]) \<le> frameChanCap)
   \<and> sendFrameSafely ch f = (if length ch < frameChanCap then (ch @ [f], True) else (ch, False))
   \<and> length (frameChan (sourceOf (readFrames (started (NewRTSPVideoSource url fps counter)) evs)))
        \<le> frameChanCap
   \<and> (\<forall>e \<in> set (sent (sourceOf (readFrames (started (NewRTSPVideoSource url fps counter)) evs))).
        em_site e \<noteq> Flush \<longrightarrow> em_queued e)
   \<and> (\<forall>r'. readFrames (started (NewRTSPVideoSource url fps counter)) evs \<noteq> Crashed SendBlocked r')"
proof -
  note inv = readFrames_inv [OF parserInv_initial, of url fps counter evs]
  have a: "frameChanCap = 5" by (simp add: frameChanCap_def)
  have b: "length ch \<le> frameChanCap \<longrightarrow>
        sendFinalised ch f = Inr ((if length ch < frameChanCap then ch else tl ch) @ [f], True)
        \<and> sendReplacing ch f = Inr ((if length ch < frameChanCap then ch else tl ch) @ [f], True)
        \<and> length ((if length ch < frameChanCap then ch else tl ch) @ [f]) \<le> frameChanCap"
    using sendFinalised_result [of ch f] sendReplacing_result [of ch f] pushed_length [of ch f]
    by blast
  have c: "sendFrameSafely ch f = (if length ch < frameChanCap then (ch @ [f], True) else (ch, False))"
    by (rule sendFrameSafely_result)
  from inv have d: "length (frameChan (sourceOf (readFrames (started (NewRTSPVideoSource url fps counter)) evs)))
        \<le> frameChanCap" by (simp add: parserInv_def)
  from inv have e: "\<forall>e \<in> set (sent (sourceOf (readFrames (started (NewRTSPVideoSource url fps counter)) evs))).
        em_site e \<noteq> Flush \<longrightarrow> em_queued e"
    by (auto simp: parserInv_def emissionOK_def)
  from inv have f: "\<forall>r'. readFrames (started (NewRTSPVideoSource url fps counter)) evs \<noteq> Crashed SendBlocked r'"
    by simp
  from a b c d e f show ?thesis by blast
qed

theorem frame_channel_newest_wins_witness:
  "length [[1 :: byte], [2], [3], [4], [5]] \<le> frameChanCap
   \<and> sendFinalised [[1], [2], [3], [4], [5]] [6] = Inr ([[2], [3], [4], [5], [6]], True)
   \<and> sendReplacing [[1], [2], [3], [4], [5]] [6] = Inr ([[2], [3], [4], [5], [6]], True)
   \<and> sendFrameSafely [[1], [2], [3], [4], [5]] [6] = ([[1], [2], [3], [4], [5]], False)
   \<and> Emission Finalised [0,0,0,1,0x41,0x9A] [] [0,0,0,1,0x41,0x9A] True
       \<in> set (sent (sourceOf (readFrames (started (NewRTSPVideoSource ''rtsp://cam/1'' 15 0))
            [Read [0,0,0,1,0x41,0x9A, 0,0,0,1,0x41,0x9B, 0,0,0,1,0x41,0x9C, 0,0,0,1,0x41,0x9D]])))"
proof -
  let ?evs = "[Read [0,0,0,1,0x41,0x9A, 0,0,0,1,0x41,0x9B, 0,0,0,1,0x41,0x9C, 0,0,0,1,0x41,0x9D]]"
  have run: "Emission Finalised [0,0,0,1,0x41,0x9A] [] [0,0,0,1,0x41,0x9A] True
       \<in> set (sent (sourceOf (readFrames (started (NewRTSPVideoSource ''rtsp://cam/1'' 15 0)) ?evs)))"
    by code_simp
  from frame_channel_newest_wins [of "[[1], [2], [3], [4], [5]]" "[6]" "''rtsp://cam/1''" 15 0 ?evs]
  have "length [[1 :: byte], [2], [3], [4], [5]] \<le> frameChanCap
   \<and> sendFinalised [[1], [2], [3], [4], [5]] [6] = Inr ([[2], [3], [4], [5], [6]], True)
   \<and> sendReplacing [[1], [2], [3], [4], [5]] [6] = Inr ([[2], [3], [4], [5], [6]], True)
   \<and> sendFrameSafely [[1], [2], [3], [4], [5]] [6] = ([[1], [2], [3], [4], [5]], False)"
    by (simp add: frameChanCap_def)
  with run show ?thesis by blast
qed

section \<open>Routing at the broker\<close>

lemma broadcastFrom_eq:
  "broadcastFrom p msg table =
     map (\<lambda>x. if ptr x \<noteq> p then x\<lparr>send := send x @ [msg]\<rparr> else x)
       (filter (\<lambda>x. ptr x = p \<or> length (send x) < sendCap) table)"
  by (induction table) (auto simp: trySend_def)

theorem full_queue_not_delivered_counterexample:
  "routeMessage \<lparr>ptr = 1, clientID = ''client-1'', send = []\<rparr>
       (JsonObject [''type'' \<mapsto> JString ''candidate''])
       [\<lparr>ptr = 1, clientID = ''client-1'', send = []\<rparr>,
        \<lparr>ptr = 2, clientID = ''client-2'',
          send = replicate 256 [''type'' \<mapsto> JString ''offer'']\<rparr>]
     = Inr [\<lparr>ptr = 1, clientID = ''client-1'', send = []\<rparr>]"
  by (simp add: routeMessage_def trySend_def sendCap_def)

text \<open>
  C4. For every message read from a client's socket that decodes to a JSON
  object: \<open>fromClientId\<close> is set to the sender's id whatever the message held;
  \<open>clientId\<close> is set to the sender's id only when the message has no such field, and
  is kept otherwise; every other field is kept. The message so amended is appended to
  the send queue of every client in the table other than the sender whose queue is not
  full; a client whose queue is full is closed and removed from the table instead, and the
  sender's own entry is left as it is.
\<close>

theorem routeMessage_stamps_and_broadcasts:
  "stampMessage c m ''fromClientId'' = Some (JString (clientID c))
   \<and> stampMessage c m ''clientId''
       = (case m ''clientId'' of None \<Rightarrow> Some (JString (clientID c)) | Some v \<Rightarrow> Some v)
   \<and> (k \<noteq> ''clientId'' \<and> k \<noteq> ''fromClientId'' \<longrightarrow> stampMessage c m k = m k)
   \<and> routeMessage c (JsonObject m) table =
       Inr (map (\<lambda>x. if ptr x \<noteq> ptr c then x\<lparr>send := send x @ [stampMessage c m]\<rparr> else x)
              (filter (\<lambda>x. ptr x = ptr c \<or> length (send x) < sendCap) table))"
  by (auto simp: stampMessage_def Let_def routeMessage_def broadcastFrom_eq split: option.splits)

theorem routeMessage_stamps_and_broadcasts_witness:
  "''type'' \<noteq> ''clientId'' \<and> ''type'' \<noteq> ''fromClientId''
   \<and> stampMessage \<lparr>ptr = 2, clientID = ''client-2'', send = []\<rparr>
        [''type'' \<mapsto> JString ''answer'', ''clientId'' \<mapsto> JString ''client-1''] ''type''
       = Some (JString ''answer'')
   \<and> stampMessage \<lparr>ptr = 2, clientID = ''client-2'', send = []\<rparr>
        [''type'' \<mapsto> JString ''answer'', ''clientId'' \<mapsto> JString ''client-1''] ''clientId''
       = Some (JString ''client-1'')
   \<and> stampMessage \<lparr>ptr = 2, clientID = ''client-2'', send = []\<rparr>
        [''type'' \<mapsto> JString ''answer'', ''clientId'' \<mapsto> JString ''client-1''] ''fromClientId''
       = Some (JString ''client-2'')
   \<and> routeMessage \<lparr>ptr = 2, clientID = ''client-2'', send = []\<rparr>
        (JsonObject [''type'' \<mapsto> JString ''answer'', ''clientId'' \<mapsto> JString ''client-1''])
        [\<lparr>ptr = 1, clientID = ''client-1'', send = []\<rparr>,
         \<lparr>ptr = 2, clientID = ''client-2'', send = []\<rparr>]
       = Inr [\<lparr>ptr = 1, clientID = ''client-1'',
                 send = [stampMessage \<lparr>ptr = 2, clientID = ''client-2'', send = []\<rparr>
                   [''type'' \<mapsto> JString ''answer'', ''clientId'' \<mapsto> JString ''client-1'']]\<rparr>,
              \<lparr>ptr = 2, clientID = ''client-2'', send = []\<rparr>]"
  using routeMessage_stamps_and_broadcasts
    [of "\<lparr>ptr = 2, clientID = ''client-2'', send = []\<rparr>"
        "[''type'' \<mapsto> JString ''answer'', ''clientId'' \<mapsto> JString ''client-1'']"
        "''type''"
        "[\<lparr>ptr = 1, clientID = ''client-1'', send = []\<rparr>,
          \<lparr>ptr = 2, clientID = ''client-2'', send = []\<rparr>]"]
  by (simp add: sendCap_def)

section \<open>Client ids at the broker\<close>

text \<open>
  C5. The id is \<open>client-\<close> followed by the size of the client table plus one, and
  the table is read before the client is handed to \<^verbatim>\<open>Run\<close>. After two clients have
  joined and the first has left, the next client gets the id of the one still connected;
  and two clients upgraded before either is registered get the same id.
\<close>

theorem client_ids_repeat:
  "connectedIDs (brokerRun [Upgrade 1, Register 1, Upgrade 2, Register 2, Unregister 1,
                            Upgrade 3, Register 3])
     = [''client-2'', ''client-2'']
   \<and> map ptr (clients (brokerRun [Upgrade 1, Register 1, Upgrade 2, Register 2, Unregister 1,
                                   Upgrade 3, Register 3]))
     = [2, 3]
   \<and> connectedIDs (brokerRun [Upgrade 1, Upgrade 2, Register 1, Register 2])
     = [''client-1'', ''client-1'']
   \<and> map ptr (clients (brokerRun [Upgrade 1, Upgrade 2, Register 1, Register 2])) = [1, 2]"
  by code_simp

section \<open>Candidates at the publisher\<close>

text \<open>
  C3. A \<^verbatim>\<open>candidate\<close> message that arrives for a viewer before its \<^verbatim>\<open>answer\<close> is
  handed to \<^verbatim>\<open>AddICECandidate\<close> at once, while the remote description is still
  \<^verbatim>\<open>nil\<close>; it is not kept, and nothing is applied again when the answer has set the
  remote description.
\<close>

theorem candidate_before_answer_not_buffered:
  "readMessages NewPublisher
     [(\<lparr>createFails = False, offerFails = False, offerSDP = ''v=0 offer'', setRemoteFails = False\<rparr>,
       JsonObject [''type'' \<mapsto> JString ''viewer_connected'',
                   ''clientId'' \<mapsto> JString ''client-2'']),
      (\<lparr>createFails = False, offerFails = False, offerSDP = ''v=0 offer'', setRemoteFails = False\<rparr>,
       JsonObject [''type'' \<mapsto> JString ''candidate'',
                   ''candidate'' \<mapsto> JObject [(''candidate'', JString ''candidate:1 1 udp 2122260223 192.0.2.7 50000 typ host''),
                                                  (''sdpMLineIndex'', JNumber 0),
                                                  (''sdpMid'', JString ''0'')],
                   ''clientId'' \<mapsto> JString ''client-2'',
                   ''fromClientId'' \<mapsto> JString ''client-2'']),
      (\<lparr>createFails = False, offerFails = False, offerSDP = ''v=0 offer'', setRemoteFails = False\<rparr>,
       JsonObject [''type'' \<mapsto> JString ''answer'',
                   ''answer'' \<mapsto> JObject [(''type'', JString ''answer''),
                                               (''sdp'', JString ''v=0 answer'')],
                   ''clientId'' \<mapsto> JString ''client-2'',
                   ''fromClientId'' \<mapsto> JString ''client-2''])]
   = Inr \<lparr>viewers = [''client-2'' \<mapsto>
             \<lparr>viewerID = ''client-2'',
               pc = \<lparr>remoteDescription = Some ''v=0 answer'',
                      addICECandidateCalls =
                        [(\<lparr>Candidate = ''candidate:1 1 udp 2122260223 192.0.2.7 50000 typ host'',
                            SDPMLineIndex = Some 0, SDPMid = Some ''0''\<rparr>, False)],
                      pcClosed = False\<rparr>\<rparr>],
          outbox = [[''type'' \<mapsto> JString ''offer'',
                     ''clientId'' \<mapsto> JString ''client-2'',
                     ''offer'' \<mapsto> JObject [(''type'', JString ''offer''),
                                              (''sdp'', JString ''v=0 offer'')]]],
          dropped = []\<rparr>"
  by (simp add: NewPublisher_def handleMessage_def asString_def onViewerConnected_def
      onAnswer_def onCandidate_def routingID_def removeViewer_def candidateOf_def)

end
